theory Spec2Isabelle
  imports Main
begin

section \<open>Table of contents of a page: the parser of \<^verbatim>\<open>mkdocs/toc.py\<close>\<close>

text \<open>
  The module turns the HTML that the markdown library generates for a table of contents
  into a tree of \<^verbatim>\<open>AnchorLink\<close> objects. Python strings are modelled as \<^typ>\<open>string\<close>
  (code points up to 255), Python's \<^verbatim>\<open>None\<close> as \<^term>\<open>None\<close>, objects that are shared
  between the result list and the stack of open parents as references into an explicit heap.
\<close>

subsection \<open>Events of the HTML tokenizer\<close>

text \<open>
  \<^verbatim>\<open>HTMLParser\<close> is the standard library's tokenizer. It calls the handler methods of its
  subclass in document order; an event is one such call. A start tag carries its attributes
  as a list of pairs, the value of an attribute written without \<^verbatim>\<open>=\<close> being \<^verbatim>\<open>None\<close>.
  The handlers that \<^verbatim>\<open>TOCParser\<close> does not override (comments, declarations, processing
  instructions) do nothing and have no event here.
\<close>

datatype event =
    StartTag string "(string \<times> string option) list"
  | EndTag string
  | Data string
  | CharRef string
  | EntityRef string

type_synonym tokenizer = "string \<Rightarrow> event list"

subsection \<open>\<^verbatim>\<open>class TOCParser(HTMLParser)\<close>\<close>

record TOCParser =
  links :: "string list"
  in_anchor :: bool
  attrs :: "(string \<rightharpoonup> string option) option"
  title :: string

text \<open>\<^verbatim>\<open>dict(attrs)\<close>: of two pairs with the same key the later one wins.\<close>

definition dict :: "('k \<times> 'v) list \<Rightarrow> ('k \<rightharpoonup> 'v)" where
  "dict kvs = map_of (rev kvs)"

text \<open>\<^verbatim>\<open>TOCParser.__init__\<close>; \<^verbatim>\<open>convert_charrefs = False\<close> is what makes the tokenizer
  report references as \<^const>\<open>CharRef\<close> and \<^const>\<open>EntityRef\<close> events.\<close>

definition TOCParser_init :: TOCParser where
  "TOCParser_init = \<lparr>links = [], in_anchor = False, attrs = None, title = []\<rparr>"

definition handle_starttag :: "string \<Rightarrow> (string \<times> string option) list \<Rightarrow> TOCParser \<Rightarrow> TOCParser" where
  "handle_starttag tag ats self =
     (if \<not> in_anchor self then
        (if tag = ''a'' then self\<lparr>in_anchor := True, attrs := Some (dict ats)\<rparr> else self)
      else self)"

definition handle_endtag :: "string \<Rightarrow> TOCParser \<Rightarrow> TOCParser" where
  "handle_endtag tag self = (if tag = ''a'' then self\<lparr>in_anchor := False\<rparr> else self)"

definition handle_data :: "string \<Rightarrow> TOCParser \<Rightarrow> TOCParser" where
  "handle_data data self =
     (if in_anchor self then self\<lparr>TOCParser.title := TOCParser.title self @ data\<rparr> else self)"

definition handle_entityref :: "string \<Rightarrow> TOCParser \<Rightarrow> TOCParser" where
  "handle_entityref ref self = handle_data (''&'' @ ref @ '';'') self"

definition handle_charref :: "string \<Rightarrow> TOCParser \<Rightarrow> TOCParser" where
  "handle_charref ref self = handle_entityref (''#'' @ ref) self"

fun dispatch :: "event \<Rightarrow> TOCParser \<Rightarrow> TOCParser" where
  "dispatch (StartTag tag ats) self = handle_starttag tag ats self"
| "dispatch (EndTag tag) self = handle_endtag tag self"
| "dispatch (Data data) self = handle_data data self"
| "dispatch (CharRef ref) self = handle_charref ref self"
| "dispatch (EntityRef ref) self = handle_entityref ref self"

text \<open>\<^verbatim>\<open>parser.feed(line)\<close> on a parser that has the events of the line delivered to it.\<close>

fun feed :: "event list \<Rightarrow> TOCParser \<Rightarrow> TOCParser" where
  "feed [] self = self"
| "feed (e # es) self = feed es (dispatch e self)"

subsection \<open>A tokenizer\<close>

text \<open>
  Modelled from the spec: the tokenizer, which is \<^verbatim>\<open>HTMLParser.feed\<close> of Python's standard
  library and not part of the module. The spec (4.1) describes it as a total function from a
  line to its events: start tags with their attributes, end tags, text, character references
  \<^verbatim>\<open>&#NN;\<close> and entity references \<^verbatim>\<open>&name;\<close> reported undecoded, tag and attribute
  names in lower case, unrecognised or incomplete markup skipped. The parser below is
  defined for any tokenizer; this one covers the markup of a generated table of contents
  and is what the concrete runs use.
\<close>

definition is_alpha :: "char \<Rightarrow> bool" where
  "is_alpha c = (let n = (of_char c :: nat) in (65 \<le> n \<and> n \<le> 90) \<or> (97 \<le> n \<and> n \<le> 122))"

definition is_digit :: "char \<Rightarrow> bool" where
  "is_digit c = (let n = (of_char c :: nat) in 48 \<le> n \<and> n \<le> 57)"

definition is_space :: "char \<Rightarrow> bool" where
  "is_space c = (c \<in> set [CHR '' '', CHR 0x09, CHR 0x0A, CHR 0x0C, CHR 0x0D])"

definition lower_char :: "char \<Rightarrow> char" where
  "lower_char c = (let n = (of_char c :: nat) in if 65 \<le> n \<and> n \<le> 90 then char_of (n + 32) else c)"

definition lower :: "string \<Rightarrow> string" where
  "lower s = map lower_char s"

text \<open>The attributes of a start tag, read from the text that follows the tag name.\<close>

datatype attr_state =
    Between
  | Name string
  | AfterName string
  | BeforeValue string
  | Quoted string char string
  | Unquoted string string

fun attrs_scan :: "attr_state \<Rightarrow> string \<Rightarrow> (string \<times> string option) list" where
  "attrs_scan Between [] = []"
| "attrs_scan (Name n) [] = [(lower (rev n), None)]"
| "attrs_scan (AfterName n) [] = [(lower (rev n), None)]"
| "attrs_scan (BeforeValue n) [] = [(lower (rev n), Some [])]"
| "attrs_scan (Quoted n q v) [] = [(lower (rev n), Some (rev v))]"
| "attrs_scan (Unquoted n v) [] = [(lower (rev n), Some (rev v))]"
| "attrs_scan Between (c # cs) =
     (if is_space c \<or> c = CHR ''/'' then attrs_scan Between cs else attrs_scan (Name [c]) cs)"
| "attrs_scan (Name n) (c # cs) =
     (if is_space c then attrs_scan (AfterName n) cs
      else if c = CHR ''='' then attrs_scan (BeforeValue n) cs
      else if c = CHR ''/'' then (lower (rev n), None) # attrs_scan Between cs
      else attrs_scan (Name (c # n)) cs)"
| "attrs_scan (AfterName n) (c # cs) =
     (if is_space c then attrs_scan (AfterName n) cs
      else if c = CHR ''='' then attrs_scan (BeforeValue n) cs
      else if c = CHR ''/'' then (lower (rev n), None) # attrs_scan Between cs
      else (lower (rev n), None) # attrs_scan (Name [c]) cs)"
| "attrs_scan (BeforeValue n) (c # cs) =
     (if is_space c \<or> c = CHR ''='' then attrs_scan (BeforeValue n) cs
      else if c = CHR 0x22 \<or> c = CHR 0x27 then attrs_scan (Quoted n c []) cs
      else attrs_scan (Unquoted n [c]) cs)"
| "attrs_scan (Quoted n q v) (c # cs) =
     (if c = q then (lower (rev n), Some (rev v)) # attrs_scan Between cs
      else attrs_scan (Quoted n q (c # v)) cs)"
| "attrs_scan (Unquoted n v) (c # cs) =
     (if is_space c then (lower (rev n), Some (rev v)) # attrs_scan Between cs
      else attrs_scan (Unquoted n (c # v)) cs)"

text \<open>The events of one tag, from the text between \<^verbatim>\<open><\<close> and \<^verbatim>\<open>>\<close>: an end tag, a start
  tag (followed by its end tag when the tag closes itself), or nothing for a comment, a
  declaration or a processing instruction.\<close>

definition tag_events :: "string \<Rightarrow> event list" where
  "tag_events body =
     (case body of
        [] \<Rightarrow> []
      | c # cs \<Rightarrow>
          if c = CHR ''/'' then
            (let name = takeWhile (\<lambda>x. \<not> is_space x) (dropWhile is_space cs)
             in if name \<noteq> [] \<and> is_alpha (hd name) then [EndTag (lower name)] else [])
          else if is_alpha c then
            (let name = lower (takeWhile (\<lambda>x. \<not> is_space x \<and> x \<noteq> CHR ''/'') body);
                 rest = dropWhile (\<lambda>x. \<not> is_space x \<and> x \<noteq> CHR ''/'') body;
                 start = StartTag name (attrs_scan Between rest)
             in if rest \<noteq> [] \<and> last rest = CHR ''/'' then [start, EndTag name] else [start])
          else [])"

definition ref_event :: "string \<Rightarrow> event" where
  "ref_event name = (case name of [] \<Rightarrow> EntityRef [] | c # cs \<Rightarrow> if c = CHR ''#'' then CharRef cs else EntityRef name)"

definition plain :: "char \<Rightarrow> bool" where
  "plain c = (c \<noteq> CHR ''<'' \<and> c \<noteq> CHR ''&'')"

datatype mode = Text | Tag string "char option" | Ref string

function (sequential) goahead :: "mode \<Rightarrow> string \<Rightarrow> event list" where
  "goahead Text [] = []"
| "goahead Text (c # cs) =
     (if c = CHR ''<'' then
        (case cs of
           [] \<Rightarrow> []
         | d # _ \<Rightarrow>
            if is_alpha d \<or> d = CHR ''/'' \<or> d = CHR ''!'' \<or> d = CHR ''?''
            then goahead (Tag [] None) cs
            else Data ''<'' # goahead Text cs)
      else if c = CHR ''&'' then
        (case cs of
           [] \<Rightarrow> [Data ''&'']
         | d # _ \<Rightarrow>
            if d = CHR ''#'' \<or> is_alpha d
            then goahead (Ref []) cs
            else Data ''&'' # goahead Text cs)
      else Data (c # takeWhile plain cs) # goahead Text (dropWhile plain cs))"
| "goahead (Tag acc q) [] = []"
| "goahead (Tag acc None) (c # cs) =
     (if c = CHR ''>'' then tag_events (rev acc) @ goahead Text cs
      else if c = CHR 0x22 \<or> c = CHR 0x27 then goahead (Tag (c # acc) (Some c)) cs
      else goahead (Tag (c # acc) None) cs)"
| "goahead (Tag acc (Some q)) (c # cs) =
     goahead (Tag (c # acc) (if c = q then None else Some q)) cs"
| "goahead (Ref acc) [] = []"
| "goahead (Ref acc) (c # cs) =
     (if is_alpha c \<or> is_digit c \<or> (c = CHR ''#'' \<and> acc = []) then goahead (Ref (c # acc)) cs
      else if c = CHR '';'' then ref_event (rev acc) # goahead Text cs
      else ref_event (rev acc) # goahead Text (c # cs))"
  by pat_completeness auto
termination
proof -
  have shorter: "2 * length (dropWhile plain cs) < Suc (Suc (2 * length cs))" for cs
  proof -
    have "length (dropWhile plain cs) \<le> length cs"
      by (rule length_dropWhile_le)
    then show ?thesis by simp
  qed
  show ?thesis
    by (relation "measure (\<lambda>(m, s). 2 * length s + (case m of Text \<Rightarrow> 0 | _ \<Rightarrow> 1))")
       (simp_all add: shorter)
qed

definition tokenize :: tokenizer where
  "tokenize line = goahead Text line"

subsection \<open>\<^verbatim>\<open>class AnchorLink\<close> and the heap\<close>

text \<open>
  An \<^verbatim>\<open>AnchorLink\<close> object: \<^verbatim>\<open>__init__\<close> assigns \<^verbatim>\<open>title\<close>, \<^verbatim>\<open>url\<close> and \<^verbatim>\<open>children\<close>
  and nothing else, so the attribute \<^verbatim>\<open>active\<close> is absent (\<^term>\<open>None\<close>) until something
  assigns it. The url is what the attribute dictionary held under \<^verbatim>\<open>href\<close>, which is
  \<^verbatim>\<open>None\<close> for an attribute without a value. The children are references: positions in
  the heap, which is the list of all objects allocated so far.
\<close>

record AnchorLink =
  title :: string
  url :: "string option"
  children :: "nat list"
  active :: "bool option"

type_synonym heap = "AnchorLink list"

definition AnchorLink_init :: "string \<Rightarrow> string option \<Rightarrow> AnchorLink" where
  "AnchorLink_init t u = \<lparr>title = t, url = u, children = [], active = None\<rparr>"

text \<open>\<^verbatim>\<open>p.children.append(c)\<close> for the object at reference \<open>p\<close>. A Python reference
  always points to an object; for a position outside the heap the update changes nothing,
  and the invariant of the loop (\<open>builder_inv\<close> below) shows that the loop never has one.\<close>

definition children_append :: "nat \<Rightarrow> nat \<Rightarrow> heap \<Rightarrow> heap" where
  "children_append p c h = h[p := (h ! p)\<lparr>children := children (h ! p) @ [c]\<rparr>]"

subsection \<open>String helpers of Python\<close>

definition endswith :: "string \<Rightarrow> string \<Rightarrow> bool" where
  "endswith s suffix = (length suffix \<le> length s \<and> drop (length s - length suffix) s = suffix)"

definition startswith :: "string \<Rightarrow> string \<Rightarrow> bool" where
  "startswith s prefix = (take (length prefix) s = prefix)"

text \<open>The line boundaries of \<^verbatim>\<open>str.splitlines\<close> among the code points up to 255:
  LF, VT, FF, CR, FS, GS, RS and NEL; CR LF counts as one boundary.\<close>

definition is_linebreak :: "char \<Rightarrow> bool" where
  "is_linebreak c = (c \<in> set [CHR 0x0A, CHR 0x0B, CHR 0x0C, CHR 0x0D, CHR 0x1C, CHR 0x1D, CHR 0x1E, CHR 0x85])"

fun splitlines_from :: "string \<Rightarrow> string \<Rightarrow> string list" where
  "splitlines_from cur [] = (if cur = [] then [] else [rev cur])"
| "splitlines_from cur [c] = (if is_linebreak c then [rev cur] else [rev (c # cur)])"
| "splitlines_from cur (c # d # cs) =
     (if c = CHR 0x0D \<and> d = CHR 0x0A then rev cur # splitlines_from [] cs
      else if is_linebreak c then rev cur # splitlines_from [] (d # cs)
      else splitlines_from (c # cur) (d # cs))"

definition splitlines :: "string \<Rightarrow> string list" where
  "splitlines s = splitlines_from [] s"

text \<open>The slice \<^verbatim>\<open>xs[2:-2]\<close>: both bounds are clipped to the list.\<close>

definition slice_2_m2 :: "'a list \<Rightarrow> 'a list" where
  "slice_2_m2 xs = drop 2 (take (length xs - 2) xs)"

subsection \<open>\<^verbatim>\<open>_parse_html_table_of_contents\<close>\<close>

text \<open>
  The only exception the loop catches is the \<^verbatim>\<open>KeyError\<close> of a missing \<^verbatim>\<open>href\<close>. Subscripting
  \<^verbatim>\<open>parser.attrs\<close> while it is still \<^verbatim>\<open>None\<close> would raise a \<^verbatim>\<open>TypeError\<close> that nothing catches.
  \<^verbatim>\<open>parser.feed(line)\<close> stands before the \<^verbatim>\<open>try\<close>: what the tokenizer raises, an
  \<^verbatim>\<open>AssertionError\<close> of the library for one, leaves the function too.
\<close>

datatype error = TypeError | AssertionError

record builder =
  heap :: heap
  parents :: "nat list"
  ret :: "nat list"

definition builder_init :: builder where
  "builder_init = \<lparr>heap = [], parents = [], ret = []\<rparr>"

text \<open>One iteration of the loop over the lines. The new object gets the next free reference.\<close>

definition parse_line :: "tokenizer \<Rightarrow> string \<Rightarrow> builder \<Rightarrow> error + builder" where
  "parse_line tok line s =
     (let parser = feed (tok line) TOCParser_init in
      if TOCParser.title parser \<noteq> [] then
        (case attrs parser of
           None \<Rightarrow> Inl TypeError
         | Some d \<Rightarrow>
            (case d ''href'' of
               None \<Rightarrow> Inr s
             | Some href \<Rightarrow>
                (let nav = length (heap s);
                     h = heap s @ [AnchorLink_init (TOCParser.title parser) href];
                     s1 = (if parents s \<noteq> []
                           then s\<lparr>heap := children_append (last (parents s)) nav h\<rparr>
                           else s\<lparr>heap := h, ret := ret s @ [nav]\<rparr>);
                     s2 = (if endswith line ''<ul>''
                           then s1\<lparr>parents := parents s1 @ [nav]\<rparr>
                           else s1)
                 in Inr s2)))
      else if startswith line ''</ul>'' then
        (if parents s \<noteq> [] then Inr (s\<lparr>parents := butlast (parents s)\<rparr>) else Inr s)
      else Inr s)"

fun parse_lines :: "tokenizer \<Rightarrow> string list \<Rightarrow> builder \<Rightarrow> error + builder" where
  "parse_lines tok [] s = Inr s"
| "parse_lines tok (line # lines) s =
     (case parse_line tok line s of
        Inl e \<Rightarrow> Inl e
      | Inr s' \<Rightarrow> parse_lines tok lines s')"

text \<open>\<^verbatim>\<open>if ret: ret[0].active = True\<close>\<close>

definition mark_active :: "builder \<Rightarrow> builder" where
  "mark_active s =
     (case ret s of
        [] \<Rightarrow> s
      | r # _ \<Rightarrow> s\<lparr>heap := (heap s)[r := (heap s ! r)\<lparr>active := Some True\<rparr>]\<rparr>)"

text \<open>The value of the function is the list \<^verbatim>\<open>ret\<close>; the heap it refers to goes with it.\<close>

record TableOfContents =
  objects :: heap
  items :: "nat list"

definition parse_html_table_of_contents :: "tokenizer \<Rightarrow> string \<Rightarrow> error + TableOfContents" where
  "parse_html_table_of_contents tok html =
     (let lines = slice_2_m2 (splitlines html) in
      case parse_lines tok lines builder_init of
        Inl e \<Rightarrow> Inl e
      | Inr s \<Rightarrow> (let s' = mark_active s in Inr \<lparr>objects = heap s', items = ret s'\<rparr>))"

text \<open>\<^verbatim>\<open>TableOfContents.__init__\<close>\<close>

definition TableOfContents_init :: "tokenizer \<Rightarrow> string \<Rightarrow> error + TableOfContents" where
  "TableOfContents_init tok html = parse_html_table_of_contents tok html"

subsection \<open>The same function when the tokenizer may raise\<close>

text \<open>
  A tokenizer of the type above returns for every line. \<^verbatim>\<open>parser.feed(line)\<close> need not:
  a \<open>feeder\<close> gives for a line either the events it delivers or the exception it raises.
  The exception is not caught, so it ends the loop and is the outcome of the function; when
  the events are delivered, the iteration goes on as \<^term>\<open>parse_line\<close> does with these
  events. For a feeder that always returns this is the function above.
\<close>

type_synonym feeder = "string \<Rightarrow> error + event list"

definition returns :: "feeder \<Rightarrow> string \<Rightarrow> bool" where
  "returns fd line = (case fd line of Inl e \<Rightarrow> False | Inr es \<Rightarrow> True)"

definition events_of :: "feeder \<Rightarrow> tokenizer" where
  "events_of fd line = (case fd line of Inl e \<Rightarrow> [] | Inr es \<Rightarrow> es)"

definition parse_line_raising :: "feeder \<Rightarrow> string \<Rightarrow> builder \<Rightarrow> error + builder" where
  "parse_line_raising fd line s =
     (case fd line of
        Inl e \<Rightarrow> Inl e
      | Inr es \<Rightarrow> parse_line (\<lambda>l. es) line s)"

fun parse_lines_raising :: "feeder \<Rightarrow> string list \<Rightarrow> builder \<Rightarrow> error + builder" where
  "parse_lines_raising fd [] s = Inr s"
| "parse_lines_raising fd (line # lines) s =
     (case parse_line_raising fd line s of
        Inl e \<Rightarrow> Inl e
      | Inr s' \<Rightarrow> parse_lines_raising fd lines s')"

definition parse_html_table_of_contents_raising :: "feeder \<Rightarrow> string \<Rightarrow> error + TableOfContents" where
  "parse_html_table_of_contents_raising fd html =
     (let lines = slice_2_m2 (splitlines html) in
      case parse_lines_raising fd lines builder_init of
        Inl e \<Rightarrow> Inl e
      | Inr s \<Rightarrow> (let s' = mark_active s in Inr \<lparr>objects = heap s', items = ret s'\<rparr>))"

definition TableOfContents_init_raising :: "feeder \<Rightarrow> string \<Rightarrow> error + TableOfContents" where
  "TableOfContents_init_raising fd html = parse_html_table_of_contents_raising fd html"

text \<open>
  What the library does where the spec (4.1) says that the tokenizer never raises: on a
  marked section \<^verbatim>\<open><![name ...\<close> whose keyword is none of those it knows, or that has no
  name at all, \<^verbatim>\<open>HTMLParser.feed\<close> of CPython (\<^verbatim>\<open>parse_marked_section\<close> and
  \<^verbatim>\<open>_scan_name\<close> of \<^verbatim>\<open>_markupbase\<close>) raises an \<^verbatim>\<open>AssertionError\<close>; a section that the
  end of the line cuts off before the name is complete is left in the buffer. The feeder
  below has this one case, for a line that begins with such a section, and delivers the
  events of \<^term>\<open>tokenize\<close> otherwise.
\<close>

definition known_keywords :: "string list" where
  "known_keywords =
     [''temp'', ''cdata'', ''ignore'', ''include'', ''rcdata'', ''if'', ''else'', ''endif'']"

definition is_name_char :: "char \<Rightarrow> bool" where
  "is_name_char c = (is_alpha c \<or> is_digit c \<or> c \<in> set ''-_.'')"

definition unknown_marked_section :: "string \<Rightarrow> bool" where
  "unknown_marked_section line =
     (let rest = drop 3 line;
          name = takeWhile is_name_char rest;
          after = dropWhile is_space (dropWhile is_name_char rest)
      in startswith line ''<!['' \<and> rest \<noteq> []
         \<and> (if name = [] then True
            else if \<not> is_alpha (hd name) then True
            else after \<noteq> [] \<and> lower name \<notin> set known_keywords))"

definition HTMLParser_feed :: feeder where
  "HTMLParser_feed line =
     (if unknown_marked_section line then Inl AssertionError else Inr (tokenize line))"

subsection \<open>The tree behind a reference, and printing it\<close>

text \<open>
  What a caller sees when it walks from an object through \<^verbatim>\<open>children\<close>. The walk follows
  references, so it is bounded by fuel: it yields \<^term>\<open>None\<close> when the fuel runs out or a
  reference points outside the heap.
\<close>

datatype link = Link (link_title: string) (link_url: "string option")
  (link_active: "bool option") (link_children: "link list")

fun sequence :: "'a option list \<Rightarrow> 'a list option" where
  "sequence [] = Some []"
| "sequence (None # xs) = None"
| "sequence (Some x # xs) = (case sequence xs of None \<Rightarrow> None | Some ys \<Rightarrow> Some (x # ys))"

fun tree_of :: "nat \<Rightarrow> heap \<Rightarrow> nat \<Rightarrow> link option" where
  "tree_of 0 h a = None"
| "tree_of (Suc n) h a =
     (if a < length h then
        (case sequence (map (tree_of n h) (children (h ! a))) of
           None \<Rightarrow> None
         | Some ts \<Rightarrow> Some (Link (title (h ! a)) (url (h ! a)) (active (h ! a)) ts))
      else None)"

definition forest_of :: "TableOfContents \<Rightarrow> link list option" where
  "forest_of toc = sequence (map (tree_of (length (objects toc)) (objects toc)) (items toc))"

text \<open>\<^verbatim>\<open>'%s' % x\<close> for a value that is a string or \<^verbatim>\<open>None\<close>.\<close>

definition percent_s :: "string option \<Rightarrow> string" where
  "percent_s x = (case x of None \<Rightarrow> ''None'' | Some s \<Rightarrow> s)"

fun indent_print :: "link \<Rightarrow> nat \<Rightarrow> string" where
  "indent_print (Link t u a cs) depth =
     concat (replicate depth ''    '') @ t @ '' - '' @ percent_s u @ [CHR 0x0A]
       @ concat (map (\<lambda>item. indent_print item (depth + 1)) cs)"

definition AnchorLink_str :: "link \<Rightarrow> string" where
  "AnchorLink_str self = indent_print self 0"

definition TableOfContents_str :: "link list \<Rightarrow> string" where
  "TableOfContents_str self = concat (map AnchorLink_str self)"

subsection \<open>Notions the properties are stated with\<close>

text \<open>What the attributes that a parser has kept hold under \<^verbatim>\<open>href\<close> (\<^term>\<open>None\<close>: no
  such attribute; \<^term>\<open>Some None\<close>: the attribute without a value), and whether a line
  makes the loop create an object: its anchor has a title that is not empty, and an
  \<^verbatim>\<open>href\<close>.\<close>

definition href_of :: "TOCParser \<Rightarrow> string option option" where
  "href_of p = (case attrs p of None \<Rightarrow> None | Some d \<Rightarrow> d ''href'')"

definition has_href :: "TOCParser \<Rightarrow> bool" where
  "has_href p = (href_of p \<noteq> None)"

definition valid_anchor :: "tokenizer \<Rightarrow> string \<Rightarrow> bool" where
  "valid_anchor tok line =
     (let p = feed (tok line) TOCParser_init in TOCParser.title p \<noteq> [] \<and> has_href p)"

text \<open>The number of nodes of a tree and of a forest, and the \<^verbatim>\<open>active\<close> attributes of all
  nodes in document order.\<close>

fun count_nodes :: "link \<Rightarrow> nat" where
  "count_nodes (Link t u a cs) = Suc (sum_list (map count_nodes cs))"

definition count_forest :: "link list \<Rightarrow> nat" where
  "count_forest f = sum_list (map count_nodes f)"

fun flags :: "link \<Rightarrow> bool option list" where
  "flags (Link t u a cs) = a # concat (map flags cs)"

definition forest_flags :: "link list \<Rightarrow> bool option list" where
  "forest_flags f = concat (map flags f)"

text \<open>Start tags of an anchor, and the text that an event adds to the title while an
  anchor is open.\<close>

fun opens_anchor :: "event \<Rightarrow> bool" where
  "opens_anchor (StartTag t ats) = (t = ''a'')"
| "opens_anchor (EndTag t) = False"
| "opens_anchor (Data d) = False"
| "opens_anchor (CharRef r) = False"
| "opens_anchor (EntityRef r) = False"


fun text_of :: "event \<Rightarrow> string" where
  "text_of (Data d) = d"
| "text_of (CharRef r) = ''&#'' @ r @ '';''"
| "text_of (EntityRef r) = ''&'' @ r @ '';''"
| "text_of (StartTag t ats) = []"
| "text_of (EndTag t) = []"

text \<open>
  The outline of a forest: depth, title and url of every node in document order. The
  outline says where every node hangs: a node is the child of the nearest node before it
  that is one level higher.
\<close>

fun outline :: "nat \<Rightarrow> link \<Rightarrow> (nat \<times> string \<times> string option) list" where
  "outline d (Link t u a cs) = (d, t, u) # concat (map (outline (Suc d)) cs)"

definition forest_outline :: "link list \<Rightarrow> (nat \<times> string \<times> string option) list" where
  "forest_outline f = concat (map (outline 0) f)"

text \<open>
  The outline that the lines of an input ask for, by the rules of the spec (4.2): a line
  whose anchor has a title and an \<^verbatim>\<open>href\<close> is an entry at the depth of the lists open at
  that point; when the line ends with \<^verbatim>\<open><ul>\<close> a list opens below the entry; a line
  without a title that begins with \<^verbatim>\<open></ul>\<close> closes the innermost open list, if there
  is one. \<open>depth_after\<close> is the number of lists that are open after some lines.
\<close>

fun depth_after :: "tokenizer \<Rightarrow> nat \<Rightarrow> string list \<Rightarrow> nat" where
  "depth_after tok d [] = d"
| "depth_after tok d (line # lines) =
     (let p = feed (tok line) TOCParser_init in
      if TOCParser.title p \<noteq> [] then
        (case href_of p of
           None \<Rightarrow> depth_after tok d lines
         | Some u \<Rightarrow> depth_after tok (if endswith line ''<ul>'' then Suc d else d) lines)
      else if startswith line ''</ul>'' then depth_after tok (d - 1) lines
      else depth_after tok d lines)"

fun lines_outline :: "tokenizer \<Rightarrow> nat \<Rightarrow> string list \<Rightarrow> (nat \<times> string \<times> string option) list" where
  "lines_outline tok d [] = []"
| "lines_outline tok d (line # lines) =
     (let p = feed (tok line) TOCParser_init in
      if TOCParser.title p \<noteq> [] then
        (case href_of p of
           None \<Rightarrow> lines_outline tok d lines
         | Some u \<Rightarrow>
            (d, TOCParser.title p, u)
              # lines_outline tok (if endswith line ''<ul>'' then Suc d else d) lines)
      else if startswith line ''</ul>'' then lines_outline tok (d - 1) lines
      else lines_outline tok d lines)"

text \<open>
  The anchor of a line, read off its events by the words of the spec: the attributes of
  the first start tag of an anchor, and the events strictly between that start tag and the
  next end tag of an anchor. Its text is the text of these events; it is valid when the
  text is not empty and the attributes have an \<^verbatim>\<open>href\<close>. A line has one anchor at most
  when at most one of its events is a start tag of an anchor.
\<close>

definition anchor_of :: "event list \<Rightarrow> ((string \<times> string option) list \<times> event list) option" where
  "anchor_of es =
     (case dropWhile (\<lambda>e. \<not> opens_anchor e) es of
        [] \<Rightarrow> None
      | e # r \<Rightarrow>
          (case e of
             StartTag t ats \<Rightarrow> Some (ats, takeWhile (\<lambda>x. x \<noteq> EndTag ''a'') r)
           | _ \<Rightarrow> None))"

definition one_anchor :: "event list \<Rightarrow> bool" where
  "one_anchor es = (length (filter opens_anchor es) \<le> 1)"

definition anchor_text :: "event list \<Rightarrow> string" where
  "anchor_text es = (case anchor_of es of None \<Rightarrow> [] | Some (ats, body) \<Rightarrow> concat (map text_of body))"

definition anchor_href :: "event list \<Rightarrow> bool" where
  "anchor_href es = (case anchor_of es of None \<Rightarrow> False | Some (ats, body) \<Rightarrow> ''href'' \<in> set (map fst ats))"

definition spec_valid_anchor :: "event list \<Rightarrow> bool" where
  "spec_valid_anchor es = (anchor_text es \<noteq> [] \<and> anchor_href es)"

text \<open>
  A line with several anchors: each anchor is a start tag with its attributes, the events
  up to its end tag (among them, maybe, start tags of further anchors, but no end tag of
  an anchor), the end tag, and the events up to the next anchor (no start tag of an anchor
  among them).
\<close>

type_synonym anchor_seg = "(string \<times> string option) list \<times> event list \<times> event list"

fun segment :: "anchor_seg \<Rightarrow> event list" where
  "segment (ats, body, gap) = StartTag ''a'' ats # body @ EndTag ''a'' # gap"

fun seg_ok :: "anchor_seg \<Rightarrow> bool" where
  "seg_ok (ats, body, gap) = (EndTag ''a'' \<notin> set body \<and> \<not> list_ex opens_anchor gap)"

fun seg_attrs :: "anchor_seg \<Rightarrow> (string \<times> string option) list" where
  "seg_attrs (ats, body, gap) = ats"

fun seg_text :: "anchor_seg \<Rightarrow> string" where
  "seg_text (ats, body, gap) = concat (map text_of body)"

text \<open>The forest that a caller of \<^verbatim>\<open>TableOfContents(html)\<close> walks: \<^term>\<open>None\<close> when the
  construction raises or the walk does not end.\<close>

definition TableOfContents_forest :: "tokenizer \<Rightarrow> string \<Rightarrow> link list option" where
  "TableOfContents_forest tok html =
     (case TableOfContents_init tok html of Inl e \<Rightarrow> None | Inr toc \<Rightarrow> forest_of toc)"

subsection \<open>Sample inputs\<close>

text \<open>The text of a generated table of contents: the lines of the list between the two
  opening and the two closing lines that the markdown library puts around it.\<close>

definition join_lines :: "string list \<Rightarrow> string" where
  "join_lines ls = concat (map (\<lambda>l. l @ [CHR 0x0A]) ls)"

definition wrap :: "string list \<Rightarrow> string" where
  "wrap ls = join_lines ([''<div class=\"toc\">'', ''<ul>''] @ ls @ [''</ul>'', ''</div>''])"

definition example_lines :: "string list" where
  "example_lines =
     [''<li><a href=\"#a\">A</a></li>'',
      ''<li><a href=\"#b\">B</a><ul>'',
      ''<li><a href=\"#c\">C</a></li>'',
      ''</ul></li>'']"

definition example_html :: string where
  "example_html = wrap example_lines"

definition malformed_html :: string where
  "malformed_html =
     wrap [''</ul>'',
           ''<li><a>No href</a></li>'',
           ''<li><a href=\"#k\">K</a><ul>'',
           ''<li><a href=x'',
           ''</ul>'',
           ''</ul>'']"

definition two_anchors_html :: string where
  "two_anchors_html = wrap [''<li><a href=\"#x\">X</a> <a href=\"#y\">Y</a></li>'']"

definition references_html :: string where
  "references_html = wrap [''<li><a href=\"#r\">R&amp;D &#38; co</a></li>'']"

definition no_href_line :: string where
  "no_href_line = ''<li><a>Title</a></li>''"

definition empty_href_line :: string where
  "empty_href_line = ''<li><a href=\"\">T</a></li>''"

definition nested_empty_href_html :: string where
  "nested_empty_href_html =
     wrap [''<li><a href=\"#b\">B</a><ul>'', empty_href_line, ''</ul></li>'']"

definition three_anchors_line :: string where
  "three_anchors_line =
     ''<li><a href=\"#x\">X<a href=\"#n\">N</a></a> <a href=\"#y\">Y</a> <a href=\"#z\">Z</a></li>''"

definition three_anchors_html :: string where
  "three_anchors_html =
     wrap [''<li><a href=\"#b\">B</a><ul>'', three_anchors_line, ''</ul></li>'']"

definition marked_section_html :: string where
  "marked_section_html = wrap [''<li><a href=\"#a\">A</a></li>'', ''<![foo bar]>'']"

subsection \<open>Forests in the heap\<close>

text \<open>
  The shape of a forest, with the reference of every node. The children of a node and the
  trees of a forest are listed from the latest to the earliest, so that the path of the
  open parents starts at the head. These notions serve the proofs only: \<open>repr\<close> says that
  the heap holds a tree of the given shape, \<open>pre\<close> lists its references in document order,
  \<open>spine\<close> is the path from the latest root through the latest children, \<open>add_at\<close> hangs
  a new leaf below the node at a depth of that path, and \<open>builder_inv\<close> is the invariant of
  the loop.
\<close>

datatype rnode = RNode (addr: nat) (kids: "rnode list")

fun pre :: "rnode \<Rightarrow> nat list" where
  "pre (RNode a ks) = a # concat (map pre (rev ks))"

definition pre_f :: "rnode list \<Rightarrow> nat list" where
  "pre_f f = concat (map pre (rev f))"

fun repr :: "heap \<Rightarrow> rnode \<Rightarrow> bool" where
  "repr h (RNode a ks) =
     (a < length h \<and> children (h ! a) = rev (map addr ks) \<and> (\<forall>k \<in> set ks. repr h k))"

fun spine :: "rnode list \<Rightarrow> nat list" where
  "spine [] = []"
| "spine (RNode a ks # f) = a # spine ks"

fun add_at :: "nat \<Rightarrow> nat \<Rightarrow> rnode list \<Rightarrow> rnode list" where
  "add_at 0 n f = RNode n [] # f"
| "add_at (Suc k) n [] = []"
| "add_at (Suc k) n (RNode a ks # f) = RNode a (add_at k n ks) # f"

fun link_of :: "heap \<Rightarrow> rnode \<Rightarrow> link" where
  "link_of h (RNode a ks) =
     Link (title (h ! a)) (url (h ! a)) (active (h ! a)) (map (link_of h) (rev ks))"

fun height :: "rnode \<Rightarrow> nat" where
  "height (RNode a ks) = Suc (foldr max (map height ks) 0)"

definition builder_inv :: "builder \<Rightarrow> rnode list \<Rightarrow> bool" where
  "builder_inv s g =
     (ret s = rev (map addr g) \<and> (\<forall>t \<in> set g. repr (heap s) t)
      \<and> pre_f g = [0..<length (heap s)]
      \<and> take (length (parents s)) (spine g) = parents s
      \<and> (\<forall>x \<in> set (heap s). active x = None))"

text \<open>The references of a shape with their depths, and the outline they stand for.\<close>

fun dpre :: "nat \<Rightarrow> rnode \<Rightarrow> (nat \<times> nat) list" where
  "dpre d (RNode a ks) = (d, a) # concat (map (dpre (Suc d)) (rev ks))"

definition dpre_f :: "nat \<Rightarrow> rnode list \<Rightarrow> (nat \<times> nat) list" where
  "dpre_f d f = concat (map (dpre d) (rev f))"

definition labelled :: "heap \<Rightarrow> (nat \<times> nat) list \<Rightarrow> (nat \<times> string \<times> string option) list" where
  "labelled h das = map (\<lambda>(d, a). (d, title (h ! a), url (h ! a))) das"

section \<open>Lemmas\<close>

subsection \<open>Shapes, and the trees they stand for\<close>

lemma pre_f_Nil [simp]: "pre_f [] = []"
  by (simp add: pre_f_def)

lemma pre_f_Cons [simp]: "pre_f (t # f) = pre_f f @ pre t"
  by (simp add: pre_f_def)

lemma pre_RNode: "pre (RNode a ks) = a # pre_f ks"
  by (simp add: pre_f_def)

lemma pre_in_pre_f: "t \<in> set f \<Longrightarrow> set (pre t) \<subseteq> set (pre_f f)"
  by (induction f) auto

lemma repr_bound: "repr h t \<Longrightarrow> a \<in> set (pre t) \<Longrightarrow> a < length h"
  by (induction t arbitrary: a) auto

lemma repr_frame:
  "repr h t \<Longrightarrow> length h \<le> length h' \<Longrightarrow>
   (\<And>a. a \<in> set (pre t) \<Longrightarrow> children (h' ! a) = children (h ! a)) \<Longrightarrow> repr h' t"
proof (induction t)
  case (RNode a ks)
  have "repr h' k" if "k \<in> set ks" for k
  proof (rule RNode.IH [OF that])
    show "repr h k" using RNode.prems(1) that by simp
    show "length h \<le> length h'" by fact
    fix b assume "b \<in> set (pre k)"
    then have "b \<in> set (pre (RNode a ks))" using that by auto
    then show "children (h' ! b) = children (h ! b)" by (rule RNode.prems(3))
  qed
  moreover have "children (h' ! a) = children (h ! a)"
    by (rule RNode.prems(3)) simp
  ultimately show ?case using RNode.prems(1,2) by simp
qed

lemma link_of_frame:
  "(\<And>a. a \<in> set (pre t) \<Longrightarrow> h' ! a = h ! a) \<Longrightarrow> link_of h' t = link_of h t"
proof (induction t)
  case (RNode a ks)
  have "link_of h' k = link_of h k" if "k \<in> set ks" for k
  proof (rule RNode.IH [OF that])
    fix b assume "b \<in> set (pre k)"
    then have "b \<in> set (pre (RNode a ks))" using that by auto
    then show "h' ! b = h ! b" by (rule RNode.prems)
  qed
  moreover have "h' ! a = h ! a" by (rule RNode.prems) simp
  ultimately show ?case by simp
qed

lemma sequence_map_Some:
  "(\<And>x. x \<in> set xs \<Longrightarrow> f x = Some (g x)) \<Longrightarrow> sequence (map f xs) = Some (map g xs)"
  by (induction xs) auto

lemma foldr_max_ge: "x \<in> set xs \<Longrightarrow> x \<le> foldr max xs (0::nat)"
  by (induction xs) auto

lemma tree_of_repr:
  "repr h t \<Longrightarrow> height t \<le> n \<Longrightarrow> tree_of n h (addr t) = Some (link_of h t)"
proof (induction n arbitrary: t)
  case 0
  then show ?case by (cases t) simp
next
  case (Suc n)
  obtain a ks where t: "t = RNode a ks" by (cases t)
  have "tree_of n h (addr k) = Some (link_of h k)" if "k \<in> set ks" for k
  proof (rule Suc.IH)
    show "repr h k" using Suc.prems(1) that t by simp
    have "height k \<le> foldr max (map height ks) 0"
      using that by (intro foldr_max_ge) simp
    then show "height k \<le> n" using Suc.prems(2) t by simp
  qed
  then have "sequence (map (tree_of n h) (map addr (rev ks))) = Some (map (link_of h) (rev ks))"
    unfolding map_map by (intro sequence_map_Some) simp
  then show ?case using Suc.prems(1) t by (simp add: rev_map)
qed

lemma foldr_max_le_sum: "foldr max xs (0::nat) \<le> sum_list xs"
  by (induction xs) auto

lemma length_concat_rev: "length (concat (rev xss)) = length (concat xss)"
  by (simp add: length_concat rev_map [symmetric])

lemma height_le_pre: "height t \<le> length (pre t)"
proof (induction t)
  case (RNode a ks)
  have "foldr max (map height ks) 0 \<le> sum_list (map height ks)"
    by (rule foldr_max_le_sum)
  also have "\<dots> \<le> sum_list (map (length \<circ> pre) ks)"
    using RNode.IH by (induction ks) (auto intro: add_mono)
  also have "\<dots> = length (concat (map pre (rev ks)))"
    by (simp add: length_concat rev_map [symmetric])
  finally show ?case by simp
qed

lemma count_link_of: "count_nodes (link_of h t) = length (pre t)"
proof (induction t)
  case (RNode a ks)
  have "sum_list (map (count_nodes \<circ> link_of h) (rev ks)) = sum_list (map (length \<circ> pre) (rev ks))"
    using RNode.IH by (intro arg_cong [where f = sum_list] map_cong) auto
  then show ?case by (simp add: length_concat comp_def)
qed

lemma flags_link_of: "flags (link_of h t) = map (\<lambda>a. active (h ! a)) (pre t)"
proof (induction t)
  case (RNode a ks)
  have "concat (map (\<lambda>k. flags (link_of h k)) (rev ks))
      = concat (map (\<lambda>k. map (\<lambda>a. active (h ! a)) (pre k)) (rev ks))"
    using RNode.IH by (intro arg_cong [where f = concat] map_cong) auto
  then show ?case by (simp add: map_concat comp_def)
qed

declare pre.simps [simp del]
declare pre_RNode [simp]

lemma spine_in_pre_f: "set (spine f) \<subseteq> set (pre_f f)"
proof (induction f rule: spine.induct)
  case 1
  show ?case by simp
next
  case (2 a ks f)
  then show ?case by auto
qed

lemma map_addr_add_at: "map addr (add_at (Suc k) n f) = map addr f"
  by (cases f rule: spine.cases) auto

lemma pre_f_add_at: "k \<le> length (spine f) \<Longrightarrow> pre_f (add_at k n f) = pre_f f @ [n]"
proof (induction k n f rule: add_at.induct)
  case (1 n f)
  show ?case by simp
next
  case (2 k n)
  then show ?case by simp
next
  case (3 k n a ks f)
  then show ?case by simp
qed

lemma spine_add_at: "k \<le> length (spine f) \<Longrightarrow> spine (add_at k n f) = take k (spine f) @ [n]"
  by (induction k n f rule: add_at.induct) auto

lemma repr_append_frame:
  assumes "repr h t" and "p \<notin> set (pre t)"
  shows "repr (children_append p n (h @ [x])) t"
proof (rule repr_frame [OF assms(1)])
  show "length h \<le> length (children_append p n (h @ [x]))"
    by (simp add: children_append_def)
  fix a assume a: "a \<in> set (pre t)"
  then have "a < length h" using assms(1) by (rule repr_bound [rotated])
  moreover have "a \<noteq> p" using a assms(2) by auto
  ultimately show "children (children_append p n (h @ [x]) ! a) = children (h ! a)"
    by (simp add: children_append_def nth_append)
qed

lemma add_at_repr:
  assumes "\<forall>t \<in> set f. repr h t" and "k < length (spine f)" and "distinct (pre_f f)"
    and "children x = []"
  shows "\<forall>t \<in> set (add_at (Suc k) (length h) f).
           repr (children_append (spine f ! k) (length h) (h @ [x])) t"
  using assms(1,2,3)
proof (induction k arbitrary: f)
  case 0
  then obtain a ks f' where f: "f = RNode a ks # f'"
    by (cases f rule: spine.cases) auto
  let ?h = "children_append a (length h) (h @ [x])"
  have a: "a < length h" and ch: "children (h ! a) = rev (map addr ks)"
    using "0.prems"(1) f by auto
  have notin: "a \<notin> set (pre_f ks)" "a \<notin> set (pre_f f')"
    using "0.prems"(3) f by auto
  have "repr ?h t" if "t \<in> set ks" for t
  proof (rule repr_append_frame)
    show "repr h t" using "0.prems"(1) f that by auto
    show "a \<notin> set (pre t)" using notin(1) pre_in_pre_f [OF that] by auto
  qed
  moreover have "repr ?h t" if "t \<in> set f'" for t
  proof (rule repr_append_frame)
    show "repr h t" using "0.prems"(1) f that by auto
    show "a \<notin> set (pre t)" using notin(2) pre_in_pre_f [OF that] by auto
  qed
  moreover have "repr ?h (RNode (length h) [])"
    using a assms(4) by (simp add: children_append_def)
  moreover have "children (?h ! a) = rev (map addr ks) @ [length h]"
    using a ch by (simp add: children_append_def nth_append)
  ultimately show ?case using a f by (auto simp: children_append_def)
next
  case (Suc k)
  then obtain a ks f' where f: "f = RNode a ks # f'"
    by (cases f rule: spine.cases) auto
  let ?p = "spine ks ! k"
  let ?h = "children_append ?p (length h) (h @ [x])"
  have k: "k < length (spine ks)" using Suc.prems(2) f by simp
  have a: "a < length h" and ch: "children (h ! a) = rev (map addr ks)"
    using Suc.prems(1) f by auto
  have p: "?p \<in> set (pre_f ks)"
    using k spine_in_pre_f [of ks] by (auto simp: subset_iff)
  have dist: "distinct (pre_f ks)" "a \<notin> set (pre_f ks)" "set (pre_f ks) \<inter> set (pre_f f') = {}"
    using Suc.prems(3) f by auto
  have ih: "\<forall>t \<in> set (add_at (Suc k) (length h) ks). repr ?h t"
    using Suc.prems(1) f k dist(1) by (intro Suc.IH) auto
  have "repr ?h t" if "t \<in> set f'" for t
  proof (rule repr_append_frame)
    show "repr h t" using Suc.prems(1) f that by auto
    show "?p \<notin> set (pre t)" using p dist(3) pre_in_pre_f [OF that] by auto
  qed
  moreover have "?p \<noteq> a" using p dist(2) by auto
  then have "children (?h ! a) = rev (map addr (add_at (Suc k) (length h) ks))"
    using a ch by (simp add: children_append_def nth_append map_addr_add_at)
  moreover have "a < length ?h" using a by (simp add: children_append_def)
  ultimately show ?case using f ih by auto
qed


lemma dispatch_attrs:
  assumes "in_anchor p \<or> TOCParser.title p \<noteq> [] \<longrightarrow> attrs p \<noteq> None"
  shows "in_anchor (dispatch e p) \<or> TOCParser.title (dispatch e p) \<noteq> [] \<longrightarrow> attrs (dispatch e p) \<noteq> None"
  using assms
  by (cases e)
     (auto simp: handle_starttag_def handle_endtag_def handle_data_def handle_charref_def
        handle_entityref_def)

lemma feed_attrs:
  "in_anchor p \<or> TOCParser.title p \<noteq> [] \<longrightarrow> attrs p \<noteq> None \<Longrightarrow>
   in_anchor (feed es p) \<or> TOCParser.title (feed es p) \<noteq> [] \<longrightarrow> attrs (feed es p) \<noteq> None"
proof (induction es arbitrary: p)
  case Nil
  then show ?case by simp
next
  case (Cons e es)
  show ?case
    unfolding feed.simps by (rule Cons.IH) (rule dispatch_attrs [OF Cons.prems])
qed

lemma title_attrs:
  "TOCParser.title (feed es TOCParser_init) \<noteq> [] \<Longrightarrow> \<exists>d. attrs (feed es TOCParser_init) = Some d"
  using feed_attrs [of TOCParser_init es] by (auto simp: TOCParser_init_def)

lemma parse_line_valid:
  assumes "valid_anchor tok line"
  shows "\<exists>t u. parse_line tok line s = Inr
     \<lparr>heap = (if parents s \<noteq> []
                then children_append (last (parents s)) (length (heap s))
                       (heap s @ [AnchorLink_init t u])
                else heap s @ [AnchorLink_init t u]),
      parents = (if endswith line ''<ul>'' then parents s @ [length (heap s)] else parents s),
      ret = (if parents s \<noteq> [] then ret s else ret s @ [length (heap s)])\<rparr>"
proof -
  let ?p = "feed (tok line) TOCParser_init"
  from assms obtain d u where t: "TOCParser.title ?p \<noteq> []"
    and d: "attrs ?p = Some d" "d ''href'' = Some u"
    by (auto simp: valid_anchor_def has_href_def href_of_def Let_def split: option.splits)
  show ?thesis
    by (rule exI [where x = "TOCParser.title ?p"], rule exI [where x = u])
       (simp add: parse_line_def t d Let_def)
qed

lemma parse_line_skip:
  assumes "TOCParser.title (feed (tok line) TOCParser_init) \<noteq> []"
    and "\<not> has_href (feed (tok line) TOCParser_init)"
  shows "parse_line tok line s = Inr s"
  using assms title_attrs [OF assms(1)]
  by (auto simp: has_href_def href_of_def parse_line_def Let_def split: option.splits)

lemma parse_line_close:
  assumes "TOCParser.title (feed (tok line) TOCParser_init) = []"
  shows "parse_line tok line s =
     Inr (if startswith line ''</ul>'' \<and> parents s \<noteq> [] then s\<lparr>parents := butlast (parents s)\<rparr> else s)"
  using assms by (simp add: parse_line_def)

lemma builder_inv_length: "builder_inv s g \<Longrightarrow> length (parents s) \<le> length (spine g)"
proof -
  assume "builder_inv s g"
  then have "length (take (length (parents s)) (spine g)) = length (parents s)"
    by (simp add: builder_inv_def)
  then show ?thesis by simp
qed

lemma builder_inv_create:
  assumes "builder_inv s g" and x: "children x = []" "active x = None"
    and h: "heap s' = (if parents s \<noteq> []
                   then children_append (last (parents s)) (length (heap s)) (heap s @ [x])
                   else heap s @ [x])"
    and r: "ret s' = (if parents s \<noteq> [] then ret s else ret s @ [length (heap s)])"
    and p: "parents s' = (if b then parents s @ [length (heap s)] else parents s)"
  shows "builder_inv s' (add_at (length (parents s)) (length (heap s)) g)"
proof (cases "parents s")
  case Nil
  let ?n = "length (heap s)"
  have "repr (heap s @ [x]) t" if "t \<in> set g" for t
  proof (rule repr_frame)
    show "repr (heap s) t" using assms(1) that by (simp add: builder_inv_def)
    show "length (heap s) \<le> length (heap s @ [x])" by simp
    fix a assume "a \<in> set (pre t)"
    then have "a < length (heap s)"
      using assms(1) that by (auto simp: builder_inv_def intro: repr_bound)
    then show "children ((heap s @ [x]) ! a) = children (heap s ! a)"
      by (simp add: nth_append)
  qed
  then show ?thesis
    using assms Nil by (auto simp: builder_inv_def)
next
  case (Cons q qs)
  let ?n = "length (heap s)"
  let ?k = "length qs"
  let ?p = "spine g ! ?k"
  have len: "?k < length (spine g)"
    using builder_inv_length [OF assms(1)] Cons by simp
  have tk: "take (Suc ?k) (spine g) = parents s"
    using assms(1) Cons by (simp add: builder_inv_def)
  have last: "last (parents s) = ?p"
    using tk take_Suc_conv_app_nth [OF len] by (metis last_snoc)
  have pre: "pre_f g = [0..<?n]"
    using assms(1) by (simp add: builder_inv_def)
  have hs: "heap s' = children_append ?p ?n (heap s @ [x])"
    using h Cons last by simp
  have "?p \<in> set (pre_f g)"
    using len spine_in_pre_f [of g] by (auto simp: subset_iff)
  then have pn: "?p < ?n" using pre by simp
  have 1: "\<forall>t \<in> set (add_at (Suc ?k) ?n g). repr (heap s') t"
    unfolding hs
  proof (rule add_at_repr)
    show "\<forall>t \<in> set g. repr (heap s) t" using assms(1) by (simp add: builder_inv_def)
    show "?k < length (spine g)" by fact
    show "distinct (pre_f g)" using pre by simp
    show "children x = []" by fact
  qed
  have 2: "pre_f (add_at (Suc ?k) ?n g) = [0..<length (heap s')]"
    using len pre by (simp add: pre_f_add_at hs children_append_def)
  have 3: "ret s' = rev (map addr (add_at (Suc ?k) ?n g))"
    using r Cons assms(1) by (simp add: map_addr_add_at builder_inv_def)
  have sp: "spine (add_at (Suc ?k) ?n g) = parents s @ [?n]"
    using len tk by (simp add: spine_add_at)
  have 4: "take (length (parents s')) (spine (add_at (Suc ?k) ?n g)) = parents s'"
    unfolding sp p by simp
  have act: "active y = None" if "y \<in> set (heap s @ [x])" for y
    using that assms(1) x(2) by (auto simp: builder_inv_def)
  have "active ((heap s @ [x]) ! ?p) = None"
    using pn by (intro act nth_mem) simp
  then have 5: "\<forall>y \<in> set (heap s'). active y = None"
    unfolding hs children_append_def using act
    by (auto dest!: set_update_subset_insert [THEN subsetD])
  show ?thesis
    using 1 2 3 4 5 Cons by (simp add: builder_inv_def)
qed

lemma builder_inv_pop:
  assumes "builder_inv s g"
  shows "builder_inv (s\<lparr>parents := butlast (parents s)\<rparr>) g"
proof -
  have "take (length (parents s) - 1) (spine g) = butlast (parents s)"
    using assms builder_inv_length [OF assms] by (metis butlast_take builder_inv_def)
  then show ?thesis using assms by (simp add: builder_inv_def)
qed

lemma builder_inv_init: "builder_inv builder_init []"
  by (simp add: builder_inv_def builder_init_def)


lemma hd_pre_f: "g \<noteq> [] \<Longrightarrow> pre_f g \<noteq> [] \<and> hd (pre_f g) = addr (last g)"
proof (induction g)
  case Nil
  then show ?case by simp
next
  case (Cons t g)
  then show ?case by (cases t) auto
qed

lemma map_all_None: "\<forall>x \<in> set xs. f x = None \<Longrightarrow> map f xs = replicate (length xs) None"
  by (induction xs) auto

lemma length_pre_f: "length (pre_f g) = sum_list (map (\<lambda>t. length (pre t)) g)"
  by (induction g) auto

lemma ret_mark_active: "ret (mark_active s) = ret s"
  by (simp add: mark_active_def split: list.splits)

lemma length_mark_active: "length (heap (mark_active s)) = length (heap s)"
  by (simp add: mark_active_def split: list.splits)

lemma children_mark_active: "children (heap (mark_active s) ! a) = children (heap s ! a)"
proof (cases "ret s")
  case Nil
  then show ?thesis by (simp add: mark_active_def)
next
  case (Cons r rs)
  show ?thesis
  proof (cases "a = r \<and> r < length (heap s)")
    case True
    then show ?thesis using Cons by (simp add: mark_active_def)
  next
    case False
    then have "(heap s)[r := (heap s ! r)\<lparr>active := Some True\<rparr>] ! a = heap s ! a"
      by (cases "a = r") (auto simp: list_update_beyond)
    then show ?thesis using Cons by (simp add: mark_active_def)
  qed
qed

lemma active_mark_active:
  assumes "builder_inv s g"
  shows "map active (heap (mark_active s))
       = (if g = [] then [] else Some True # replicate (length (heap s) - 1) None)"
proof (cases g)
  case Nil
  have "pre_f g = [0..<length (heap s)]" using assms by (simp add: builder_inv_def)
  then have "[0..<length (heap s)] = []" using Nil by simp
  then have "heap s = []" by simp
  then show ?thesis using Nil by (simp add: mark_active_def split: list.splits)
next
  case (Cons t g')
  then have g: "g \<noteq> []" by simp
  have pre: "pre_f g = [0..<length (heap s)]" and none: "\<forall>x \<in> set (heap s). active x = None"
    and r: "ret s = rev (map addr g)"
    using assms by (simp_all add: builder_inv_def)
  from hd_pre_f [OF g] pre have ne: "heap s \<noteq> []" and "addr (last g) = 0"
    by (auto simp: upt_conv_Cons)
  then have "hd (ret s) = 0" "ret s \<noteq> []"
    using r g by (simp_all add: hd_rev last_map)
  then obtain rs where rs: "ret s = 0 # rs" by (cases "ret s") auto
  from ne obtain x xs where h: "heap s = x # xs" by (cases "heap s") auto
  have "map active xs = replicate (length xs) None"
    using none h by (intro map_all_None) simp
  then show ?thesis using g rs h by (simp add: mark_active_def)
qed

subsection \<open>The outline of the result\<close>

lemma dpre_f_Nil [simp]: "dpre_f d [] = []"
  by (simp add: dpre_f_def)

lemma dpre_f_Cons [simp]: "dpre_f d (t # f) = dpre_f d f @ dpre d t"
  by (simp add: dpre_f_def)

lemma dpre_RNode [simp]: "dpre d (RNode a ks) = (d, a) # dpre_f (Suc d) ks"
  by (simp add: dpre_f_def)

declare dpre.simps [simp del]

lemma snd_dpre: "map snd (dpre d t) = pre t"
proof (induction t arbitrary: d)
  case (RNode a ks)
  have "concat (map (\<lambda>k. map snd (dpre (Suc d) k)) (rev ks)) = concat (map pre (rev ks))"
    using RNode.IH by (intro arg_cong [where f = concat] map_cong) auto
  then show ?case by (simp add: dpre_f_def pre_f_def map_concat comp_def)
qed

lemma snd_dpre_f: "map snd (dpre_f d f) = pre_f f"
  by (simp add: dpre_f_def pre_f_def map_concat comp_def snd_dpre)

lemma dpre_f_add_at:
  "k \<le> length (spine f) \<Longrightarrow> dpre_f d (add_at k n f) = dpre_f d f @ [(d + k, n)]"
proof (induction k n f arbitrary: d rule: add_at.induct)
  case (1 n f)
  show ?case by simp
next
  case (2 k n)
  then show ?case by simp
next
  case (3 k n a ks f)
  then show ?case by simp
qed

lemma outline_link_of: "outline d (link_of h t) = labelled h (dpre d t)"
proof (induction t arbitrary: d)
  case (RNode a ks)
  have "concat (map (\<lambda>k. outline (Suc d) (link_of h k)) (rev ks))
      = concat (map (\<lambda>k. labelled h (dpre (Suc d) k)) (rev ks))"
    using RNode.IH by (intro arg_cong [where f = concat] map_cong) auto
  then show ?case
    by (simp add: labelled_def dpre_f_def map_concat comp_def)
qed

lemma forest_outline_link_of:
  "forest_outline (map (link_of h) (rev g)) = labelled h (dpre_f 0 g)"
  by (simp add: forest_outline_def dpre_f_def labelled_def map_concat comp_def
      outline_link_of [unfolded labelled_def])

lemma labelled_cong:
  "(\<And>a. a \<in> set (map snd das) \<Longrightarrow> title (h' ! a) = title (h ! a) \<and> url (h' ! a) = url (h ! a))
   \<Longrightarrow> labelled h' das = labelled h das"
  by (force simp: labelled_def)

lemma labelled_append [simp]: "labelled h (xs @ ys) = labelled h xs @ labelled h ys"
  by (simp add: labelled_def)

lemma count_is_outline: "count_nodes t = length (outline d t)"
proof (induction t arbitrary: d)
  case (Link t u a cs)
  have "sum_list (map count_nodes cs) = sum_list (map (\<lambda>c. length (outline (Suc d) c)) cs)"
    using Link.IH by (intro arg_cong [where f = sum_list] map_cong) auto
  then show ?case by (simp add: length_concat comp_def)
qed

lemma lines_outline_append:
  "lines_outline tok d (xs @ ys) = lines_outline tok d xs @ lines_outline tok (depth_after tok d xs) ys"
  by (induction xs arbitrary: d) (auto simp: Let_def split: option.splits)

lemma depth_after_append:
  "depth_after tok d (xs @ ys) = depth_after tok (depth_after tok d xs) ys"
  by (induction xs arbitrary: d) (auto simp: Let_def split: option.splits)

lemma length_lines_outline:
  "length (lines_outline tok d lines) = length (filter (valid_anchor tok) lines)"
  by (induction lines arbitrary: d)
     (auto simp: Let_def valid_anchor_def has_href_def split: option.splits)


lemma length_children_append [simp]: "length (children_append p c h) = length h"
  by (simp add: children_append_def)

lemma fields_children_append:
  "title (children_append p c h ! a) = title (h ! a)"
  "url (children_append p c h ! a) = url (h ! a)"
  by (cases "p < length h"; cases "a = p"; simp add: children_append_def list_update_beyond)+

lemma fields_mark_active:
  "title (heap (mark_active s) ! a) = title (heap s ! a)"
  "url (heap (mark_active s) ! a) = url (heap s ! a)"
proof -
  have "title (heap (mark_active s) ! a) = title (heap s ! a)
      \<and> url (heap (mark_active s) ! a) = url (heap s ! a)"
  proof (cases "ret s")
    case Nil
    then show ?thesis by (simp add: mark_active_def)
  next
    case (Cons r rs)
    then show ?thesis
      by (cases "r < length (heap s)"; cases "a = r")
         (simp_all add: mark_active_def list_update_beyond)
  qed
  then show "title (heap (mark_active s) ! a) = title (heap s ! a)"
    and "url (heap (mark_active s) ! a) = url (heap s ! a)"
    by simp_all
qed

lemma parse_line_create:
  assumes "TOCParser.title (feed (tok line) TOCParser_init) \<noteq> []"
    and "href_of (feed (tok line) TOCParser_init) = Some u"
  shows "parse_line tok line s = Inr
     \<lparr>heap = (if parents s \<noteq> []
                then children_append (last (parents s)) (length (heap s))
                       (heap s @ [AnchorLink_init (TOCParser.title (feed (tok line) TOCParser_init)) u])
                else heap s @ [AnchorLink_init (TOCParser.title (feed (tok line) TOCParser_init)) u]),
      parents = (if endswith line ''<ul>'' then parents s @ [length (heap s)] else parents s),
      ret = (if parents s \<noteq> [] then ret s else ret s @ [length (heap s)])\<rparr>"
proof -
  from assms(2) obtain d where "attrs (feed (tok line) TOCParser_init) = Some d" "d ''href'' = Some u"
    by (auto simp: href_of_def split: option.splits)
  then show ?thesis
    using assms(1) by (simp add: parse_line_def Let_def)
qed

lemma parse_line_step:
  assumes "builder_inv s g"
  shows "\<exists>s' g'. parse_line tok line s = Inr s' \<and> builder_inv s' g'
     \<and> labelled (heap s') (dpre_f 0 g')
         = labelled (heap s) (dpre_f 0 g) @ lines_outline tok (length (parents s)) [line]
     \<and> length (parents s') = depth_after tok (length (parents s)) [line]"
proof -
  let ?p = "feed (tok line) TOCParser_init"
  let ?k = "length (parents s)"
  let ?n = "length (heap s)"
  show ?thesis
  proof (cases "TOCParser.title ?p = []")
    case True
    have "length (butlast (parents s)) = ?k - 1" by simp
    then show ?thesis
      using parse_line_close [of tok line s] True assms builder_inv_pop [OF assms]
      by (auto simp: Let_def)
  next
    case nonempty: False
    show ?thesis
    proof (cases "href_of ?p")
      case None
      then have "parse_line tok line s = Inr s"
        using nonempty by (intro parse_line_skip) (simp_all add: has_href_def)
      then show ?thesis
        using assms nonempty None by (auto simp: Let_def)
    next
      case (Some u)
      let ?x = "AnchorLink_init (TOCParser.title ?p) u"
      let ?s' = "\<lparr>heap = (if parents s \<noteq> []
                then children_append (last (parents s)) ?n (heap s @ [?x])
                else heap s @ [?x]),
         parents = (if endswith line ''<ul>'' then parents s @ [?n] else parents s),
         ret = (if parents s \<noteq> [] then ret s else ret s @ [?n])\<rparr>"
      let ?g' = "add_at ?k ?n g"
      have pl: "parse_line tok line s = Inr ?s'"
        using nonempty Some by (rule parse_line_create)
      have inv': "builder_inv ?s' ?g'"
        using assms
        by (rule builder_inv_create [where x = ?x and b = "endswith line ''<ul>''"])
           (simp_all add: AnchorLink_init_def)
      have pre: "pre_f g = [0..<?n]" using assms by (simp add: builder_inv_def)
      have old: "title (heap ?s' ! a) = title (heap s ! a) \<and> url (heap ?s' ! a) = url (heap s ! a)"
        if "a < ?n" for a
        using that by (simp add: fields_children_append nth_append)
      have new: "title (heap ?s' ! ?n) = TOCParser.title ?p" "url (heap ?s' ! ?n) = u"
        by (simp_all add: fields_children_append AnchorLink_init_def)
      have "dpre_f 0 ?g' = dpre_f 0 g @ [(?k, ?n)]"
        using builder_inv_length [OF assms] by (simp add: dpre_f_add_at)
      then have "labelled (heap ?s') (dpre_f 0 ?g')
          = labelled (heap ?s') (dpre_f 0 g) @ [(?k, TOCParser.title ?p, u)]"
        using new by (simp add: labelled_def)
      moreover have "labelled (heap ?s') (dpre_f 0 g) = labelled (heap s) (dpre_f 0 g)"
      proof (rule labelled_cong)
        fix a assume "a \<in> set (map snd (dpre_f 0 g))"
        then have "a < ?n" using pre by (simp add: snd_dpre_f)
        then show "title (heap ?s' ! a) = title (heap s ! a) \<and> url (heap ?s' ! a) = url (heap s ! a)"
          by (rule old)
      qed
      moreover have "lines_outline tok ?k [line] = [(?k, TOCParser.title ?p, u)]"
        using nonempty Some by simp
      moreover have "length (parents ?s') = depth_after tok ?k [line]"
        using nonempty Some by simp
      ultimately show ?thesis
        using pl inv' by (intro exI [where x = ?s'] exI [where x = ?g']) simp
    qed
  qed
qed

lemma parse_lines_steps:
  "builder_inv s g \<Longrightarrow> \<exists>s' g'. parse_lines tok lines s = Inr s' \<and> builder_inv s' g'
     \<and> labelled (heap s') (dpre_f 0 g')
         = labelled (heap s) (dpre_f 0 g) @ lines_outline tok (length (parents s)) lines
     \<and> length (parents s') = depth_after tok (length (parents s)) lines"
proof (induction lines arbitrary: s g)
  case Nil
  then show ?case by auto
next
  case (Cons line lines)
  from parse_line_step [OF Cons.prems, of tok line] obtain s1 g1 where
    1: "parse_line tok line s = Inr s1" "builder_inv s1 g1"
    "labelled (heap s1) (dpre_f 0 g1)
       = labelled (heap s) (dpre_f 0 g) @ lines_outline tok (length (parents s)) [line]"
    "length (parents s1) = depth_after tok (length (parents s)) [line]"
    by blast
  from Cons.IH [OF 1(2)] obtain s2 g2 where
    2: "parse_lines tok lines s1 = Inr s2" "builder_inv s2 g2"
    "labelled (heap s2) (dpre_f 0 g2)
       = labelled (heap s1) (dpre_f 0 g1) @ lines_outline tok (length (parents s1)) lines"
    "length (parents s2) = depth_after tok (length (parents s1)) lines"
    by blast
  have "lines_outline tok (length (parents s)) (line # lines)
      = lines_outline tok (length (parents s)) [line]
        @ lines_outline tok (depth_after tok (length (parents s)) [line]) lines"
    using lines_outline_append [of tok "length (parents s)" "[line]" lines] by simp
  moreover have "depth_after tok (length (parents s)) (line # lines)
      = depth_after tok (depth_after tok (length (parents s)) [line]) lines"
    using depth_after_append [of tok "length (parents s)" "[line]" lines] by simp
  ultimately show ?case
    using 1 2 by (intro exI [where x = s2] exI [where x = g2]) simp
qed


lemma count_forest_outline: "count_forest f = length (forest_outline f)"
proof -
  have "sum_list (map count_nodes f) = sum_list (map (\<lambda>t. length (outline 0 t)) f)"
    by (intro arg_cong [where f = sum_list] map_cong) (auto simp: count_is_outline [of _ 0])
  then show ?thesis
    by (simp add: count_forest_def forest_outline_def length_concat comp_def)
qed

lemma construction_outline:
  "\<exists>toc f. TableOfContents_init tok html = Inr toc \<and> forest_of toc = Some f
     \<and> forest_outline f = lines_outline tok 0 (slice_2_m2 (splitlines html))
     \<and> forest_flags f = (if f = [] then [] else Some True # replicate (count_forest f - 1) None)"
proof -
  let ?lines = "slice_2_m2 (splitlines html)"
  from parse_lines_steps [OF builder_inv_init, of tok ?lines] obtain s g where
    s: "parse_lines tok ?lines builder_init = Inr s" and inv: "builder_inv s g"
    and ol: "labelled (heap s) (dpre_f 0 g) = lines_outline tok 0 ?lines"
    by (auto simp: builder_init_def labelled_def)
  let ?h = "heap (mark_active s)"
  let ?toc = "\<lparr>objects = ?h, items = ret s\<rparr>"
  let ?f = "map (link_of ?h) (rev g)"
  have pre: "pre_f g = [0..<length (heap s)]" and r: "ret s = rev (map addr g)"
    using inv by (simp_all add: builder_inv_def)
  have toc: "TableOfContents_init tok html = Inr ?toc"
    by (simp add: TableOfContents_init_def parse_html_table_of_contents_def s ret_mark_active)
  have repr: "repr ?h t" if "t \<in> set g" for t
  proof (rule repr_frame)
    show "repr (heap s) t" using inv that by (simp add: builder_inv_def)
    show "length (heap s) \<le> length ?h" by (simp add: length_mark_active)
    show "children (?h ! a) = children (heap s ! a)" for a by (rule children_mark_active)
  qed
  have "tree_of (length ?h) ?h (addr t) = Some (link_of ?h t)" if "t \<in> set (rev g)" for t
  proof (rule tree_of_repr)
    show "repr ?h t" using that by (intro repr) simp
    have "height t \<le> length (pre t)" by (rule height_le_pre)
    also have "\<dots> \<le> length (pre_f g)"
      using that unfolding length_pre_f by (intro member_le_sum_list) auto
    finally show "height t \<le> length ?h" by (simp add: pre length_mark_active)
  qed
  then have "sequence (map (\<lambda>t. tree_of (length ?h) ?h (addr t)) (rev g)) = Some ?f"
    by (rule sequence_map_Some)
  then have forest: "forest_of ?toc = Some ?f"
    by (simp add: forest_of_def r rev_map comp_def)
  have "forest_outline ?f = labelled ?h (dpre_f 0 g)"
    by (rule forest_outline_link_of)
  also have "\<dots> = labelled (heap s) (dpre_f 0 g)"
    by (rule labelled_cong) (simp add: fields_mark_active)
  finally have outline: "forest_outline ?f = lines_outline tok 0 ?lines"
    by (simp add: ol)
  have "count_forest ?f = length (labelled (heap s) (dpre_f 0 g))"
    using outline ol by (simp add: count_forest_outline)
  also have "\<dots> = length (map snd (dpre_f 0 g))" by (simp add: labelled_def)
  finally have count: "count_forest ?f = length (heap s)" by (simp add: snd_dpre_f pre)
  have "forest_flags ?f = concat (map (\<lambda>t. map (\<lambda>a. active (?h ! a)) (pre t)) (rev g))"
    by (simp add: forest_flags_def comp_def flags_link_of)
  also have "\<dots> = map (\<lambda>a. active (?h ! a)) (pre_f g)"
    by (simp add: pre_f_def map_concat comp_def)
  also have "\<dots> = map active (map ((!) ?h) [0..<length ?h])"
    by (simp add: pre length_mark_active)
  also have "\<dots> = map active ?h" by (simp only: map_nth)
  finally have "forest_flags ?f = (if ?f = [] then [] else Some True # replicate (count_forest ?f - 1) None)"
    by (simp add: active_mark_active [OF inv] count)
  with toc forest outline show ?thesis
    by (intro exI [where x = ?toc] exI [where x = ?f]) simp
qed

lemma construction:
  "\<exists>toc f. TableOfContents_init tok html = Inr toc \<and> forest_of toc = Some f
     \<and> count_forest f = length (filter (valid_anchor tok) (slice_2_m2 (splitlines html)))
     \<and> forest_flags f = (if f = [] then [] else Some True # replicate (count_forest f - 1) None)"
proof -
  from construction_outline [of tok html] obtain toc f where
    "TableOfContents_init tok html = Inr toc" "forest_of toc = Some f"
    "forest_outline f = lines_outline tok 0 (slice_2_m2 (splitlines html))"
    "forest_flags f = (if f = [] then [] else Some True # replicate (count_forest f - 1) None)"
    by blast
  moreover from this have "count_forest f = length (filter (valid_anchor tok) (slice_2_m2 (splitlines html)))"
    by (simp add: count_forest_outline length_lines_outline)
  ultimately show ?thesis by blast
qed

subsection \<open>Lines, and runs of the loop\<close>

lemma slice_short: "length xs \<le> 4 \<Longrightarrow> slice_2_m2 xs = []"
  by (simp add: slice_2_m2_def)

lemma slice_wrapped: "slice_2_m2 (w1 # w2 # mid @ [w3, w4]) = mid"
  by (simp add: slice_2_m2_def)

lemma parse_lines_append:
  "parse_lines tok (xs @ ys) s =
     (case parse_lines tok xs s of Inl e \<Rightarrow> Inl e | Inr s' \<Rightarrow> parse_lines tok ys s')"
  by (induction xs arbitrary: s) (auto split: sum.splits)

lemma example_split: "slice_2_m2 (splitlines example_html) = example_lines"
  by code_simp

lemma example_run:
  "parse_lines tokenize example_lines builder_init =
     Inr \<lparr>heap = [\<lparr>title = ''A'', url = Some ''#a'', children = [], active = None\<rparr>,
                  \<lparr>title = ''B'', url = Some ''#b'', children = [2], active = None\<rparr>,
                  \<lparr>title = ''C'', url = Some ''#c'', children = [], active = None\<rparr>],
          parents = [], ret = [0, 1]\<rparr>"
  by code_simp

lemma example_toc:
  assumes "slice_2_m2 (splitlines html) = example_lines"
  shows "TableOfContents_init tokenize html =
     Inr \<lparr>objects = [\<lparr>title = ''A'', url = Some ''#a'', children = [], active = Some True\<rparr>,
                     \<lparr>title = ''B'', url = Some ''#b'', children = [2], active = None\<rparr>,
                     \<lparr>title = ''C'', url = Some ''#c'', children = [], active = None\<rparr>],
          items = [0, 1]\<rparr>"
  unfolding TableOfContents_init_def parse_html_table_of_contents_def assms Let_def example_run
  by (simp add: mark_active_def)

lemma example_forest:
  assumes "slice_2_m2 (splitlines html) = example_lines"
  shows "TableOfContents_forest tokenize html =
     Some [Link ''A'' (Some ''#a'') (Some True) [],
           Link ''B'' (Some ''#b'') None [Link ''C'' (Some ''#c'') None []]]"
  by (simp add: TableOfContents_forest_def example_toc [OF assms] forest_of_def eval_nat_numeral)

lemma parse_line_total: "\<exists>s'. parse_line tok line s = Inr s'"
proof (cases "valid_anchor tok line")
  case True
  from parse_line_valid [OF True, of s] show ?thesis by blast
next
  case False
  show ?thesis
  proof (cases "TOCParser.title (feed (tok line) TOCParser_init) = []")
    case True
    then show ?thesis by (simp add: parse_line_close)
  next
    case nonempty: False
    then have "\<not> has_href (feed (tok line) TOCParser_init)"
      using False by (simp add: valid_anchor_def)
    then have "parse_line tok line s = Inr s"
      using nonempty by (intro parse_line_skip)
    then show ?thesis by blast
  qed
qed

lemma two_anchors_forest:
  "TableOfContents_forest tokenize two_anchors_html = Some [Link ''XY'' (Some ''#y'') (Some True) []]"
  by code_simp

lemma references_forest:
  "TableOfContents_forest tokenize references_html
     = Some [Link ''R&amp;D &#38; co'' (Some ''#r'') (Some True) []]"
  by code_simp

subsection \<open>The parser between the tags of an anchor\<close>

lemma feed_append: "feed (xs @ ys) p = feed ys (feed xs p)"
  by (induction xs arbitrary: p) auto

lemma handle_endtag_fields:
  "\<not> in_anchor (handle_endtag ''a'' p)"
  "TOCParser.title (handle_endtag t p) = TOCParser.title p"
  "attrs (handle_endtag t p) = attrs p"
  by (simp_all add: handle_endtag_def)

lemma feed_closed:
  "\<not> in_anchor p \<Longrightarrow> \<not> list_ex opens_anchor es \<Longrightarrow> feed es p = p"
proof (induction es arbitrary: p)
  case Nil
  show ?case by simp
next
  case (Cons e es)
  have "dispatch e p = p"
    using Cons.prems
    by (cases e)
       (auto simp: handle_starttag_def handle_endtag_def handle_data_def handle_charref_def
          handle_entityref_def)
  then show ?case using Cons by simp
qed

lemma feed_open:
  "in_anchor p \<Longrightarrow> EndTag ''a'' \<notin> set es \<Longrightarrow>
   feed es p = p\<lparr>TOCParser.title := TOCParser.title p @ concat (map text_of es)\<rparr>"
proof (induction es arbitrary: p)
  case Nil
  show ?case by simp
next
  case (Cons e es)
  have 1: "dispatch e p = p\<lparr>TOCParser.title := TOCParser.title p @ text_of e\<rparr>"
    using Cons.prems
    by (cases e)
       (auto simp: handle_starttag_def handle_endtag_def handle_data_def handle_charref_def
          handle_entityref_def)
  have "feed es (dispatch e p)
      = (dispatch e p)\<lparr>TOCParser.title := TOCParser.title (dispatch e p) @ concat (map text_of es)\<rparr>"
    using Cons.prems by (intro Cons.IH) (simp_all add: 1)
  then show ?case by (simp add: 1)
qed

lemma dict_present: "(dict ats k \<noteq> None) = (k \<in> set (map fst ats))"
  by (simp add: dict_def map_of_eq_None_iff)

lemma one_anchor_parser:
  assumes "one_anchor es"
  shows "TOCParser.title (feed es TOCParser_init) = anchor_text es
       \<and> has_href (feed es TOCParser_init) = anchor_href es"
proof (cases "dropWhile (\<lambda>e. \<not> opens_anchor e) es")
  case Nil
  then have "\<not> list_ex opens_anchor es"
    by (simp add: list_ex_iff)
  then have "feed es TOCParser_init = TOCParser_init"
    by (intro feed_closed) (simp_all add: TOCParser_init_def)
  moreover have "anchor_of es = None"
    unfolding anchor_of_def Nil by simp
  ultimately show ?thesis
    by (simp add: anchor_text_def anchor_href_def has_href_def href_of_def TOCParser_init_def)
next
  case (Cons e r)
  let ?before = "takeWhile (\<lambda>e. \<not> opens_anchor e) es"
  have es: "es = ?before @ e # r"
    using Cons takeWhile_dropWhile_id [of "\<lambda>e. \<not> opens_anchor e" es] by simp
  have "opens_anchor e"
    using Cons hd_dropWhile [of "\<lambda>e. \<not> opens_anchor e" es] by simp
  then obtain ats where e: "e = StartTag ''a'' ats" by (cases e) auto
  have before: "\<not> list_ex opens_anchor ?before"
    by (auto simp: list_ex_iff dest: set_takeWhileD)
  have "filter opens_anchor es = filter opens_anchor ?before @ e # filter opens_anchor r"
    using es \<open>opens_anchor e\<close> by (metis filter.simps(2) filter_append)
  then have "length (filter opens_anchor r) = 0"
    using assms by (simp add: one_anchor_def)
  then have r: "\<not> list_ex opens_anchor r"
    by (simp add: list_ex_iff filter_empty_conv)
  let ?body = "takeWhile (\<lambda>x. x \<noteq> EndTag ''a'') r"
  let ?tail = "dropWhile (\<lambda>x. x \<noteq> EndTag ''a'') r"
  have body: "EndTag ''a'' \<notin> set ?body"
    by (auto dest: set_takeWhileD)
  let ?p1 = "handle_starttag ''a'' ats TOCParser_init"
  have p1: "in_anchor ?p1" "attrs ?p1 = Some (dict ats)" "TOCParser.title ?p1 = []"
    by (simp_all add: handle_starttag_def TOCParser_init_def)
  let ?p2 = "feed ?body ?p1"
  have p2: "?p2 = ?p1\<lparr>TOCParser.title := concat (map text_of ?body)\<rparr>"
    using feed_open [OF p1(1) body] p1(3) by simp
  have tail: "TOCParser.title (feed ?tail ?p2) = TOCParser.title ?p2 \<and> attrs (feed ?tail ?p2) = attrs ?p2"
  proof (cases ?tail)
    case Nil
    show ?thesis unfolding Nil by simp
  next
    case (Cons x rest)
    then have "x = EndTag ''a''"
      using hd_dropWhile [of "\<lambda>x. x \<noteq> EndTag ''a''" r] by simp
    moreover have "\<not> list_ex opens_anchor rest"
    proof -
      have "set rest \<subseteq> set r"
        using Cons set_dropWhileD [of _ "\<lambda>x. x \<noteq> EndTag ''a''" r] by (auto simp: subset_iff)
      then show ?thesis using r by (auto simp: list_ex_iff)
    qed
    then have "feed rest (handle_endtag ''a'' ?p2) = handle_endtag ''a'' ?p2"
      by (intro feed_closed) (simp_all add: handle_endtag_fields)
    ultimately show ?thesis unfolding Cons by (simp add: handle_endtag_fields)
  qed
  have "feed es TOCParser_init = feed (e # r) (feed ?before TOCParser_init)"
    by (subst es) (simp only: feed_append)
  also have "feed ?before TOCParser_init = TOCParser_init"
    using before by (intro feed_closed) (simp_all add: TOCParser_init_def)
  also have "feed (e # r) TOCParser_init = feed r ?p1"
    by (simp add: e)
  also have "r = ?body @ ?tail" by simp
  also have "feed (?body @ ?tail) ?p1 = feed ?tail ?p2"
    by (simp only: feed_append)
  finally have "TOCParser.title (feed es TOCParser_init) = concat (map text_of ?body)"
    and "attrs (feed es TOCParser_init) = Some (dict ats)"
    using tail by (simp_all add: p2 p1)
  moreover have "anchor_of es = Some (ats, ?body)"
    unfolding anchor_of_def Cons e by simp
  ultimately show ?thesis
    using dict_present [of ats "''href''"]
    by (auto simp: anchor_text_def anchor_href_def has_href_def href_of_def)
qed

lemma spec_valid_anchor_iff:
  "one_anchor (tok line) \<Longrightarrow> valid_anchor tok line = spec_valid_anchor (tok line)"
  using one_anchor_parser [of "tok line"]
  by (simp add: valid_anchor_def spec_valid_anchor_def Let_def)

lemma filter_spec_valid:
  "list_all (\<lambda>line. one_anchor (tok line)) lines \<Longrightarrow>
   filter (valid_anchor tok) lines = filter (\<lambda>line. spec_valid_anchor (tok line)) lines"
  by (induction lines) (auto simp: spec_valid_anchor_iff)

lemma feed_segment:
  assumes "\<not> in_anchor p" and "seg_ok seg"
  shows "\<not> in_anchor (feed (segment seg) p)
       \<and> attrs (feed (segment seg) p) = Some (dict (seg_attrs seg))
       \<and> TOCParser.title (feed (segment seg) p) = TOCParser.title p @ seg_text seg"
proof -
  obtain ats body gap where seg: "seg = (ats, body, gap)" by (cases seg)
  let ?p1 = "handle_starttag ''a'' ats p"
  have p1: "in_anchor ?p1" "attrs ?p1 = Some (dict ats)" "TOCParser.title ?p1 = TOCParser.title p"
    using assms(1) by (simp_all add: handle_starttag_def)
  have body: "EndTag ''a'' \<notin> set body" and gap: "\<not> list_ex opens_anchor gap"
    using assms(2) seg by simp_all
  let ?p2 = "feed body ?p1"
  have p2: "?p2 = ?p1\<lparr>TOCParser.title := TOCParser.title p @ concat (map text_of body)\<rparr>"
    using feed_open [OF p1(1) body] p1(3) by simp
  let ?p3 = "handle_endtag ''a'' ?p2"
  have p3: "\<not> in_anchor ?p3" "attrs ?p3 = Some (dict ats)"
    "TOCParser.title ?p3 = TOCParser.title p @ concat (map text_of body)"
    by (simp_all add: handle_endtag_fields p2 p1)
  have "feed (segment seg) p = feed (body @ EndTag ''a'' # gap) ?p1"
    by (simp add: seg)
  also have "\<dots> = feed (EndTag ''a'' # gap) ?p2" by (simp only: feed_append)
  also have "\<dots> = feed gap ?p3" by simp
  also have "\<dots> = ?p3" using p3(1) gap by (rule feed_closed)
  finally show ?thesis using p3 by (simp add: seg)
qed

lemma feed_segments:
  assumes "\<not> in_anchor p" and "list_all seg_ok segs" and "segs \<noteq> []"
  shows "\<not> in_anchor (feed (concat (map segment segs)) p)
       \<and> attrs (feed (concat (map segment segs)) p) = Some (dict (seg_attrs (last segs)))
       \<and> TOCParser.title (feed (concat (map segment segs)) p)
           = TOCParser.title p @ concat (map seg_text segs)"
  using assms
proof (induction segs arbitrary: p)
  case Nil
  then show ?case by simp
next
  case (Cons seg segs)
  let ?p = "feed (segment seg) p"
  have ok: "seg_ok seg" "list_all seg_ok segs" using Cons.prems(2) by simp_all
  note first = feed_segment [OF Cons.prems(1) ok(1)]
  have step: "feed (concat (map segment (seg # segs))) p = feed (concat (map segment segs)) ?p"
    by (simp add: feed_append)
  show ?case
  proof (cases "segs = []")
    case True
    then show ?thesis using first by simp
  next
    case False
    from first have "\<not> in_anchor ?p" by simp
    from Cons.IH [OF this ok(2) False] first False show ?thesis
      unfolding step by simp
  qed
qed

lemma entry_in_outline:
  assumes "TOCParser.title (feed (tok line) TOCParser_init) = t" and "t \<noteq> []"
    and "href_of (feed (tok line) TOCParser_init) = Some u"
  shows "lines_outline tok 0 (preceding @ line # following)
       = lines_outline tok 0 preceding
         @ (depth_after tok 0 preceding, t, u)
         # lines_outline tok (if endswith line ''<ul>'' then Suc (depth_after tok 0 preceding)
                              else depth_after tok 0 preceding) following"
  using assms by (simp add: lines_outline_append)

subsection \<open>Sample lines\<close>

lemma no_href_line_parser:
  "TOCParser.title (feed (tokenize no_href_line) TOCParser_init) = ''Title''"
  "href_of (feed (tokenize no_href_line) TOCParser_init) = None"
  by code_simp+

lemma empty_href_line_parser:
  "TOCParser.title (feed (tokenize empty_href_line) TOCParser_init) = ''T''"
  "href_of (feed (tokenize empty_href_line) TOCParser_init) = Some (Some [])"
  by code_simp+

lemma close_line_parser: "TOCParser.title (feed (tokenize ''</ul>'') TOCParser_init) = []"
  by code_simp

lemma no_href_split:
  "slice_2_m2 (splitlines (wrap (take 2 example_lines @ no_href_line # drop 2 example_lines)))
     = take 2 example_lines @ no_href_line # drop 2 example_lines"
  by code_simp

lemma extra_close_split:
  "splitlines example_html = ''<div class=\"toc\">'' # ''<ul>'' # example_lines @ [''</ul>'', ''</div>'']"
  "splitlines (wrap (example_lines @ [''</ul>'']))
     = ''<div class=\"toc\">'' # ''<ul>'' # example_lines @ [''</ul>'', ''</ul>'', ''</div>'']"
  by code_simp+

lemma empty_href_split: "slice_2_m2 (splitlines (wrap [empty_href_line])) = [empty_href_line]"
  by code_simp

lemma example_one_anchor:
  "list_all (\<lambda>line. one_anchor (tokenize line)) (slice_2_m2 (splitlines example_html))"
  by code_simp

lemma example_spec_valid:
  "length (filter (\<lambda>line. spec_valid_anchor (tokenize line)) (slice_2_m2 (splitlines example_html))) = 3"
  by code_simp

lemma nested_empty_href_split:
  "slice_2_m2 (splitlines nested_empty_href_html)
     = [''<li><a href=\"#b\">B</a><ul>''] @ empty_href_line # [''</ul></li>'']"
  by code_simp

lemma nested_outline:
  "lines_outline tokenize 0 [''<li><a href=\"#b\">B</a><ul>''] = [(0, ''B'', Some ''#b'')]"
  "depth_after tokenize 0 [''<li><a href=\"#b\">B</a><ul>''] = Suc 0"
  "lines_outline tokenize (Suc 0) [''</ul></li>''] = []"
  by code_simp+

lemma nested_empty_href_forest:
  "TableOfContents_forest tokenize nested_empty_href_html
     = Some [Link ''B'' (Some ''#b'') (Some True) [Link ''T'' (Some []) None []]]"
  by code_simp

lemma three_anchors_events:
  "tokenize three_anchors_line
     = [StartTag ''li'' []]
       @ concat (map segment
           [([(''href'', Some ''#x'')],
             [Data ''X'', StartTag ''a'' [(''href'', Some ''#n'')], Data ''N''],
             [EndTag ''a'', Data '' '']),
            ([(''href'', Some ''#y'')], [Data ''Y''], [Data '' '']),
            ([(''href'', Some ''#z'')], [Data ''Z''], [EndTag ''li''])])"
  by code_simp

lemma three_anchors_split:
  "slice_2_m2 (splitlines three_anchors_html)
     = [''<li><a href=\"#b\">B</a><ul>''] @ three_anchors_line # [''</ul></li>'']"
  by code_simp

lemma three_anchors_forest:
  "TableOfContents_forest tokenize three_anchors_html
     = Some [Link ''B'' (Some ''#b'') (Some True) [Link ''XNYZ'' (Some ''#z'') None []]]"
  by code_simp

lemma three_anchors_ends: "endswith three_anchors_line ''<ul>'' = False"
  by code_simp

lemma malformed_returns:
  "list_all (returns HTMLParser_feed) (slice_2_m2 (splitlines malformed_html))"
  by code_simp

lemma marked_section_raises:
  "TableOfContents_init_raising HTMLParser_feed marked_section_html = Inl AssertionError"
  "HTMLParser_feed ''<![foo bar]>'' = Inl AssertionError"
  by code_simp+

subsection \<open>Runs with a tokenizer that may raise\<close>

lemma parse_line_events: "tok line = es \<Longrightarrow> parse_line (\<lambda>l. es) line s = parse_line tok line s"
  by (simp add: parse_line_def)

lemma parse_line_raising_returns:
  assumes "returns fd line"
  shows "parse_line_raising fd line s = parse_line (events_of fd) line s"
proof -
  from assms obtain es where es: "fd line = Inr es"
    by (auto simp: returns_def split: sum.splits)
  then have "events_of fd line = es" by (simp add: events_of_def)
  then have "parse_line (\<lambda>l. es) line s = parse_line (events_of fd) line s"
    by (rule parse_line_events)
  then show ?thesis by (simp add: parse_line_raising_def es)
qed

lemma parse_lines_raising_returns:
  "list_all (returns fd) lines \<Longrightarrow>
   parse_lines_raising fd lines s = parse_lines (events_of fd) lines s"
  by (induction lines arbitrary: s) (auto simp: parse_line_raising_returns split: sum.splits)

lemma parse_lines_raising_append:
  "parse_lines_raising fd (xs @ ys) s =
     (case parse_lines_raising fd xs s of Inl e \<Rightarrow> Inl e | Inr s' \<Rightarrow> parse_lines_raising fd ys s')"
  by (induction xs arbitrary: s) (auto split: sum.splits)

lemma parse_lines_total: "\<exists>s'. parse_lines tok lines s = Inr s'"
proof (induction lines arbitrary: s)
  case Nil
  show ?case by simp
next
  case (Cons line lines)
  from parse_line_total [of tok line s] obtain s1 where "parse_line tok line s = Inr s1"
    by blast
  with Cons [of s1] show ?case by simp
qed

lemma init_raising_returns:
  assumes "list_all (returns fd) (slice_2_m2 (splitlines html))"
  shows "TableOfContents_init_raising fd html = TableOfContents_init (events_of fd) html"
  by (simp add: TableOfContents_init_raising_def parse_html_table_of_contents_raising_def
      TableOfContents_init_def parse_html_table_of_contents_def
      parse_lines_raising_returns [OF assms])

lemma init_raising_total:
  "TableOfContents_init_raising (\<lambda>l. Inr (tok l)) html = TableOfContents_init tok html"
proof -
  have "list_all (returns (\<lambda>l. Inr (tok l))) lines" for lines
    by (induction lines) (simp_all add: returns_def)
  moreover have "events_of (\<lambda>l. Inr (tok l)) = tok"
    by (rule ext) (simp add: events_of_def)
  ultimately show ?thesis
    using init_raising_returns [of "\<lambda>l. Inr (tok l)" html] by simp
qed

lemma init_raising_propagates:
  assumes "slice_2_m2 (splitlines html) = preceding @ line # following"
    and "list_all (returns fd) preceding" and "fd line = Inl e"
  shows "TableOfContents_init_raising fd html = Inl e"
proof -
  from parse_lines_total [of "events_of fd" preceding builder_init] obtain s1 where
    "parse_lines (events_of fd) preceding builder_init = Inr s1" by blast
  then have "parse_lines_raising fd preceding builder_init = Inr s1"
    using assms(2) by (simp add: parse_lines_raising_returns)
  moreover have "parse_line_raising fd line s1 = Inl e"
    using assms(3) by (simp add: parse_line_raising_def)
  ultimately have "parse_lines_raising fd (preceding @ line # following) builder_init = Inl e"
    by (simp add: parse_lines_raising_append)
  then show ?thesis
    by (simp add: TableOfContents_init_raising_def parse_html_table_of_contents_raising_def
        assms(1))
qed

section \<open>Properties\<close>

text \<open>
  C1. For the input whose lines between the two leading and the two trailing wrapper lines
  are the four lines of the example, the table of contents has the top-level nodes A (url
  \<^verbatim>\<open>#a\<close>) and B (url \<^verbatim>\<open>#b\<close>) with the one child C (url \<^verbatim>\<open>#c\<close>); A is active; and the
  table prints as three lines \<^verbatim>\<open>title - url\<close>, the child indented by four spaces.
\<close>

theorem end_to_end:
  assumes "slice_2_m2 (splitlines html) =
     [''<li><a href=\"#a\">A</a></li>'',
      ''<li><a href=\"#b\">B</a><ul>'',
      ''<li><a href=\"#c\">C</a></li>'',
      ''</ul></li>'']"
  shows "TableOfContents_forest tokenize html =
           Some [Link ''A'' (Some ''#a'') (Some True) [],
                 Link ''B'' (Some ''#b'') None [Link ''C'' (Some ''#c'') None []]]
       \<and> map_option TableOfContents_str (TableOfContents_forest tokenize html) =
           Some (''A - #a'' @ [CHR 0x0A] @ ''B - #b'' @ [CHR 0x0A] @ ''    C - #c'' @ [CHR 0x0A])"
proof -
  have "slice_2_m2 (splitlines html) = example_lines"
    using assms by (simp add: example_lines_def)
  then have "TableOfContents_forest tokenize html =
           Some [Link ''A'' (Some ''#a'') (Some True) [],
                 Link ''B'' (Some ''#b'') None [Link ''C'' (Some ''#c'') None []]]"
    by (rule example_forest)
  then show ?thesis
    by (simp add: TableOfContents_str_def AnchorLink_str_def percent_s_def)
qed

theorem end_to_end_witness:
  "slice_2_m2 (splitlines example_html) =
     [''<li><a href=\"#a\">A</a></li>'',
      ''<li><a href=\"#b\">B</a><ul>'',
      ''<li><a href=\"#c\">C</a></li>'',
      ''</ul></li>'']
   \<and> TableOfContents_forest tokenize example_html =
           Some [Link ''A'' (Some ''#a'') (Some True) [],
                 Link ''B'' (Some ''#b'') None [Link ''C'' (Some ''#c'') None []]]
   \<and> map_option TableOfContents_str (TableOfContents_forest tokenize example_html) =
           Some (''A - #a'' @ [CHR 0x0A] @ ''B - #b'' @ [CHR 0x0A] @ ''    C - #c'' @ [CHR 0x0A])"
proof -
  have lines: "slice_2_m2 (splitlines example_html) =
     [''<li><a href=\"#a\">A</a></li>'',
      ''<li><a href=\"#b\">B</a><ul>'',
      ''<li><a href=\"#c\">C</a></li>'',
      ''</ul></li>'']"
    using example_split by (simp add: example_lines_def)
  show ?thesis
    using lines end_to_end [OF lines] by blast
qed

text \<open>
  C9. When the input splits into at most four lines, the table of contents is empty: the
  first two and the last two lines are dropped before any line is parsed.
\<close>

theorem short_input_empty:
  assumes "length (splitlines html) \<le> 4"
  shows "TableOfContents_init tok html = Inr \<lparr>objects = [], items = []\<rparr>
       \<and> TableOfContents_forest tok html = Some []"
proof -
  have "slice_2_m2 (splitlines html) = []"
    using assms by (rule slice_short)
  then have "TableOfContents_init tok html = Inr \<lparr>objects = [], items = []\<rparr>"
    by (simp add: TableOfContents_init_def parse_html_table_of_contents_def builder_init_def
        mark_active_def)
  then show ?thesis
    by (simp add: TableOfContents_forest_def forest_of_def)
qed

theorem short_input_empty_witness:
  "length (splitlines (join_lines [''<ul>'', ''<li><a href=\"#a\">A</a></li>'', ''</ul>''])) \<le> 4
   \<and> TableOfContents_init tokenize (join_lines [''<ul>'', ''<li><a href=\"#a\">A</a></li>'', ''</ul>''])
       = Inr \<lparr>objects = [], items = []\<rparr>"
proof -
  have short: "length (splitlines (join_lines [''<ul>'', ''<li><a href=\"#a\">A</a></li>'', ''</ul>''])) \<le> 4"
    by code_simp
  show ?thesis
    using short short_input_empty [OF short, of tokenize] by simp
qed

text \<open>
  C2. When every line of the input between the wrapper lines has one anchor at most, the
  number of nodes of the tree, top-level nodes and all descendants, is the number of lines
  with a valid anchor: an anchor whose text between its start tag and its end tag is not
  empty and whose attributes have an \<^verbatim>\<open>href\<close>. This holds whether or not the lists of
  the input are balanced.
\<close>

theorem node_count:
  assumes "list_all (\<lambda>line. one_anchor (tok line)) (slice_2_m2 (splitlines html))"
  shows "\<exists>toc f. TableOfContents_init tok html = Inr toc \<and> forest_of toc = Some f
     \<and> count_forest f
         = length (filter (\<lambda>line. spec_valid_anchor (tok line)) (slice_2_m2 (splitlines html)))"
  using construction [of tok html] filter_spec_valid [OF assms] by auto

theorem node_count_witness:
  "\<exists>toc f. TableOfContents_init tokenize example_html = Inr toc \<and> forest_of toc = Some f
     \<and> count_forest f = 3"
  using node_count [OF example_one_anchor] by (simp add: example_spec_valid)

text \<open>
  C3, as the code has it. An \<^verbatim>\<open>AnchorLink\<close> is created without an \<^verbatim>\<open>active\<close> attribute.
  After the construction of a table of contents whose forest is not empty, exactly one node
  of the whole tree, the first top-level node, has \<^verbatim>\<open>active = True\<close>, and no other node
  has the attribute at all; when the forest is empty no node is marked.
\<close>

theorem active_first_only:
  "active (AnchorLink_init t u) = None
   \<and> (\<exists>toc f. TableOfContents_init tok html = Inr toc \<and> forest_of toc = Some f
         \<and> forest_flags f = (if f = [] then [] else Some True # replicate (count_forest f - 1) None)
         \<and> (f \<noteq> [] \<longrightarrow> link_active (hd f) = Some True))"
proof -
  from construction [of tok html] obtain toc f where
    toc: "TableOfContents_init tok html = Inr toc" "forest_of toc = Some f"
    and fl: "forest_flags f = (if f = [] then [] else Some True # replicate (count_forest f - 1) None)"
    by blast
  have "link_active (hd f) = Some True" if "f \<noteq> []"
  proof -
    from that obtain x xs where f: "f = x # xs" by (cases f) auto
    obtain t' u' a cs where x: "x = Link t' u' a cs" by (cases x)
    from fl f x show ?thesis by (simp add: forest_flags_def)
  qed
  with toc fl show ?thesis by (auto simp: AnchorLink_init_def)
qed

theorem active_first_only_witness:
  "\<exists>toc f. TableOfContents_init tokenize example_html = Inr toc \<and> forest_of toc = Some f
     \<and> f \<noteq> [] \<and> link_active (hd f) = Some True \<and> forest_flags f = [Some True, None, None]"
proof -
  from active_first_only [of "''A''" "Some ''#a''" tokenize example_html] obtain toc f where
    toc: "TableOfContents_init tokenize example_html = Inr toc" "forest_of toc = Some f"
    and fl: "forest_flags f = (if f = [] then [] else Some True # replicate (count_forest f - 1) None)"
    and hd: "f \<noteq> [] \<longrightarrow> link_active (hd f) = Some True"
    by blast
  have "TableOfContents_forest tokenize example_html = Some f"
    using toc by (simp add: TableOfContents_forest_def)
  then have f: "f = [Link ''A'' (Some ''#a'') (Some True) [],
           Link ''B'' (Some ''#b'') None [Link ''C'' (Some ''#c'') None []]]"
    by (simp add: example_forest [OF example_split])
  then have "f \<noteq> []" "count_forest f = 3"
    by (simp_all add: count_forest_def)
  with toc fl hd show ?thesis by (auto simp: eval_nat_numeral)
qed

text \<open>
  C3, as the spec has it, fails: the nodes B and C of the example have no \<^verbatim>\<open>active\<close>
  attribute, where the claim gives them the value false, and a new object has none.
\<close>

theorem active_default_counterexample:
  "map_option forest_flags (TableOfContents_forest tokenize example_html)
     = Some [Some True, None, None]
   \<and> map_option forest_flags (TableOfContents_forest tokenize example_html)
     \<noteq> Some [Some True, Some False, Some False]
   \<and> active (AnchorLink_init ''B'' (Some ''#b'')) \<noteq> Some False"
  by (simp add: example_forest [OF example_split] forest_flags_def AnchorLink_init_def)

text \<open>
  C7, as the code has it. When the tokenizer returns for every line of the input between
  the wrapper lines, the construction of a table of contents raises nothing: it returns a
  list of objects from which every walk through the children ends, inside the heap, and
  every single line is absorbed from any state of the loop. What the tokenizer raises for
  a line is not caught: when it returns for the lines before, its exception is the outcome
  of the construction. With a tokenizer that returns for every line, this is the
  construction of the other properties.
\<close>

theorem raises_only_from_tokenizer:
  "(list_all (returns fd) (slice_2_m2 (splitlines html)) \<longrightarrow>
      (\<exists>toc f. TableOfContents_init_raising fd html = Inr toc \<and> forest_of toc = Some f))
   \<and> (slice_2_m2 (splitlines html) = preceding @ line # following \<and> list_all (returns fd) preceding
        \<and> fd line = Inl e \<longrightarrow>
      TableOfContents_init_raising fd html = Inl e)
   \<and> (returns fd line' \<longrightarrow> (\<exists>s'. parse_line_raising fd line' s = Inr s'))
   \<and> TableOfContents_init_raising (\<lambda>l. Inr (tok l)) html = TableOfContents_init tok html"
proof -
  have "\<exists>toc f. TableOfContents_init_raising fd html = Inr toc \<and> forest_of toc = Some f"
    if "list_all (returns fd) (slice_2_m2 (splitlines html))"
    using construction [of "events_of fd" html] init_raising_returns [OF that] by auto
  moreover have "TableOfContents_init_raising fd html = Inl e"
    if "slice_2_m2 (splitlines html) = preceding @ line # following" "list_all (returns fd) preceding"
      "fd line = Inl e"
    using that by (rule init_raising_propagates)
  moreover have "\<exists>s'. parse_line_raising fd line' s = Inr s'" if "returns fd line'"
    using parse_line_total [of "events_of fd" line' s] that
    by (simp add: parse_line_raising_returns)
  ultimately show ?thesis
    using init_raising_total [of tok html] by blast
qed

theorem raises_only_from_tokenizer_witness:
  "list_all (returns HTMLParser_feed) (slice_2_m2 (splitlines malformed_html))
   \<and> (\<exists>toc f. TableOfContents_init_raising HTMLParser_feed malformed_html = Inr toc
         \<and> forest_of toc = Some f)
   \<and> TableOfContents_init_raising (\<lambda>l. Inr (tokenize l)) malformed_html
       = TableOfContents_init tokenize malformed_html"
  using raises_only_from_tokenizer [of HTMLParser_feed malformed_html _ _ _ _ _ _ tokenize]
    malformed_returns
  by blast

text \<open>
  C7, as the spec has it, fails: the line \<^verbatim>\<open><![foo bar]>\<close> makes the tokenizer raise an
  \<^verbatim>\<open>AssertionError\<close>, and the construction raises it.
\<close>

theorem tokenizer_error_counterexample:
  "TableOfContents_init_raising HTMLParser_feed marked_section_html = Inl AssertionError
   \<and> HTMLParser_feed ''<![foo bar]>'' = Inl AssertionError"
  by (simp add: marked_section_raises)

text \<open>
  C8. References inside the text of an anchor are not decoded: while an anchor is open, a
  character reference with the code \<open>ref\<close> adds the text \<^verbatim>\<open>&#ref;\<close> to the title and an
  entity reference with the name \<open>name\<close> adds \<^verbatim>\<open>&name;\<close>.
\<close>

theorem references_verbatim:
  assumes "in_anchor self"
  shows "TOCParser.title (handle_charref ref self) = TOCParser.title self @ ''&#'' @ ref @ '';''
       \<and> TOCParser.title (handle_entityref name self) = TOCParser.title self @ ''&'' @ name @ '';''
       \<and> TOCParser.title (feed [CharRef ref, EntityRef name] self)
           = TOCParser.title self @ ''&#'' @ ref @ '';'' @ ''&'' @ name @ '';''"
  using assms by (simp add: handle_charref_def handle_entityref_def handle_data_def)

theorem references_verbatim_witness:
  "in_anchor \<lparr>links = [], in_anchor = True, attrs = Some (dict [(''href'', Some ''#r'')]), title = ''R''\<rparr>
   \<and> TOCParser.title (handle_charref ''38''
         \<lparr>links = [], in_anchor = True, attrs = Some (dict [(''href'', Some ''#r'')]), title = ''R''\<rparr>)
       = ''R&#38;''
   \<and> TOCParser.title (handle_entityref ''amp''
         \<lparr>links = [], in_anchor = True, attrs = Some (dict [(''href'', Some ''#r'')]), title = ''R''\<rparr>)
       = ''R&amp;''
   \<and> TableOfContents_forest tokenize references_html
       = Some [Link ''R&amp;D &#38; co'' (Some ''#r'') (Some True) []]"
  using references_verbatim [of "\<lparr>links = [], in_anchor = True,
      attrs = Some (dict [(''href'', Some ''#r'')]), title = ''R''\<rparr>" "''38''" "''amp''"]
    references_forest
  by simp

text \<open>
  C4. A line whose anchor has a title that is not empty and no \<^verbatim>\<open>href\<close> attribute leaves
  the state of the loop as it is: no object is created, the title is dropped, the stack of
  open parents is untouched. So the run over the lines, and the table of contents, are the
  same as for the input without that line.
\<close>

theorem missing_href_dropped:
  assumes "TOCParser.title (feed (tok line) TOCParser_init) \<noteq> []"
    and "href_of (feed (tok line) TOCParser_init) = None"
    and "slice_2_m2 (splitlines html) = before @ line # after"
    and "slice_2_m2 (splitlines html') = before @ after"
  shows "parse_line tok line s = Inr s
       \<and> parse_lines tok (before @ line # after) s = parse_lines tok (before @ after) s
       \<and> TableOfContents_init tok html = TableOfContents_init tok html'"
proof -
  have skip: "parse_line tok line s0 = Inr s0" for s0
    using assms(1,2) by (intro parse_line_skip) (simp_all add: has_href_def)
  have run: "parse_lines tok (before @ line # after) s0 = parse_lines tok (before @ after) s0" for s0
    by (simp add: parse_lines_append skip split: sum.splits)
  show ?thesis
    using skip [of s] run [of s] run [of builder_init]
    by (simp add: TableOfContents_init_def parse_html_table_of_contents_def assms(3,4))
qed

theorem missing_href_dropped_witness:
  "TOCParser.title (feed (tokenize no_href_line) TOCParser_init) \<noteq> []
   \<and> href_of (feed (tokenize no_href_line) TOCParser_init) = None
   \<and> parse_line tokenize no_href_line builder_init = Inr builder_init
   \<and> TableOfContents_init tokenize
         (wrap (take 2 example_lines @ no_href_line # drop 2 example_lines))
       = TableOfContents_init tokenize example_html"
proof -
  have 1: "TOCParser.title (feed (tokenize no_href_line) TOCParser_init) \<noteq> []"
    by (simp add: no_href_line_parser)
  have 2: "href_of (feed (tokenize no_href_line) TOCParser_init) = None"
    by (rule no_href_line_parser)
  have 3: "slice_2_m2 (splitlines example_html) = take 2 example_lines @ drop 2 example_lines"
    by (simp add: example_split)
  show ?thesis
    using 1 2
      missing_href_dropped [where tok = tokenize and line = no_href_line
        and before = "take 2 example_lines" and after = "drop 2 example_lines"
        and s = builder_init, OF 1 2 no_href_split 3]
    by blast
qed

text \<open>
  C5. An extra \<^verbatim>\<open></ul>\<close> line after the last line of the list, when no parent is open
  any more, raises nothing and changes nothing: with the wrapper lines around both inputs,
  the table of contents is the one of the input without that line. Popping the empty stack
  of parents is a no-op.
\<close>

theorem extra_close_ignored:
  assumes "splitlines html = w1 # w2 # mid @ [w3, w4]"
    and "splitlines html' = w1 # w2 # mid @ [''</ul>'', w3, w4]"
    and "parse_lines tok mid builder_init = Inr s"
    and "parents s = []"
    and "TOCParser.title (feed (tok ''</ul>'') TOCParser_init) = []"
  shows "parse_line tok ''</ul>'' s = Inr s
       \<and> TableOfContents_init tok html' = TableOfContents_init tok html
       \<and> TableOfContents_init tok html = Inr \<lparr>objects = heap (mark_active s), items = ret s\<rparr>"
proof -
  have pop: "parse_line tok ''</ul>'' s = Inr s"
    using assms(4,5) by (simp add: parse_line_close)
  have "splitlines html' = w1 # w2 # (mid @ [''</ul>'']) @ [w3, w4]"
    using assms(2) by simp
  then have lines': "slice_2_m2 (splitlines html') = mid @ [''</ul>'']"
    by (simp only: slice_wrapped)
  have lines: "slice_2_m2 (splitlines html) = mid"
    using assms(1) by (simp only: slice_wrapped)
  have "parse_lines tok (mid @ [''</ul>'']) builder_init = Inr s"
    by (simp add: parse_lines_append assms(3) pop)
  then show ?thesis
    using pop assms(3)
    by (simp add: TableOfContents_init_def parse_html_table_of_contents_def lines lines'
        ret_mark_active)
qed

theorem extra_close_ignored_witness:
  "TableOfContents_init tokenize (wrap (example_lines @ [''</ul>'']))
     = TableOfContents_init tokenize example_html
   \<and> TableOfContents_forest tokenize (wrap (example_lines @ [''</ul>'']))
     = Some [Link ''A'' (Some ''#a'') (Some True) [],
             Link ''B'' (Some ''#b'') None [Link ''C'' (Some ''#c'') None []]]"
proof -
  have "TableOfContents_init tokenize (wrap (example_lines @ [''</ul>'']))
      = TableOfContents_init tokenize example_html"
    using extra_close_ignored [where tok = tokenize and mid = example_lines,
        OF extra_close_split example_run _ close_line_parser]
    by simp
  then show ?thesis
    by (simp add: TableOfContents_forest_def example_toc [OF example_split] forest_of_def
        eval_nat_numeral)
qed

text \<open>
  C6, as the code has it. A start tag of an anchor that comes while an earlier anchor of
  the line is still open is ignored: the attributes stay those of the anchor that is open,
  and the text goes on being added to the title. A start tag of an anchor that comes after
  the end tag of the earlier anchor replaces the attributes, and its text is added to the
  title collected so far. So for a line with any number of anchors one after the other, the
  node that the line creates, at the depth of the lists open at that line, has the
  \<^verbatim>\<open>href\<close> of the last of these anchors and the text of all of them as its title.
\<close>

theorem open_anchor_wins:
  assumes "tok line = before @ concat (map segment segs)" and "segs \<noteq> []"
    and "\<not> list_ex opens_anchor before" and "list_all seg_ok segs"
  shows "attrs (feed (tok line) TOCParser_init) = Some (dict (seg_attrs (last segs)))
       \<and> TOCParser.title (feed (tok line) TOCParser_init) = concat (map seg_text segs)
       \<and> (concat (map seg_text segs) \<noteq> [] \<and> dict (seg_attrs (last segs)) ''href'' = Some u
            \<and> slice_2_m2 (splitlines html) = preceding @ line # following \<longrightarrow>
          (\<exists>toc f. TableOfContents_init tok html = Inr toc \<and> forest_of toc = Some f
             \<and> forest_outline f
                 = lines_outline tok 0 preceding
                   @ (depth_after tok 0 preceding, concat (map seg_text segs), u)
                   # lines_outline tok
                       (if endswith line ''<ul>'' then Suc (depth_after tok 0 preceding)
                        else depth_after tok 0 preceding) following))"
proof -
  let ?p = "feed (tok line) TOCParser_init"
  have "feed before TOCParser_init = TOCParser_init"
    using assms(3) by (intro feed_closed) (simp add: TOCParser_init_def)
  then have p: "?p = feed (concat (map segment segs)) TOCParser_init"
    by (simp add: assms(1) feed_append)
  have "\<not> in_anchor TOCParser_init" "TOCParser.title TOCParser_init = []"
    by (simp_all add: TOCParser_init_def)
  with feed_segments [OF _ assms(4,2), of TOCParser_init]
  have parser: "attrs ?p = Some (dict (seg_attrs (last segs)))"
    "TOCParser.title ?p = concat (map seg_text segs)"
    unfolding p by simp_all
  have "\<exists>toc f. TableOfContents_init tok html = Inr toc \<and> forest_of toc = Some f
      \<and> forest_outline f
          = lines_outline tok 0 preceding
            @ (depth_after tok 0 preceding, concat (map seg_text segs), u)
            # lines_outline tok
                (if endswith line ''<ul>'' then Suc (depth_after tok 0 preceding)
                 else depth_after tok 0 preceding) following"
    if "concat (map seg_text segs) \<noteq> []" "dict (seg_attrs (last segs)) ''href'' = Some u"
      "slice_2_m2 (splitlines html) = preceding @ line # following"
  proof -
    have "href_of ?p = Some u"
      using parser(1) that(2) by (simp add: href_of_def)
    from entry_in_outline [where tok = tok and line = line and preceding = preceding
        and following = following, OF parser(2) that(1) this]
      construction_outline [of tok html]
    show ?thesis by (auto simp: that(3))
  qed
  with parser show ?thesis by blast
qed

theorem open_anchor_wins_witness:
  "href_of (feed (tokenize three_anchors_line) TOCParser_init) = Some (Some ''#z'')
   \<and> TOCParser.title (feed (tokenize three_anchors_line) TOCParser_init) = ''XNYZ''
   \<and> (\<exists>toc f. TableOfContents_init tokenize three_anchors_html = Inr toc
         \<and> forest_of toc = Some f
         \<and> forest_outline f = [(0, ''B'', Some ''#b''), (1, ''XNYZ'', Some ''#z'')])
   \<and> TableOfContents_forest tokenize three_anchors_html
       = Some [Link ''B'' (Some ''#b'') (Some True) [Link ''XNYZ'' (Some ''#z'') None []]]"
proof -
  let ?segs = "[([(''href'', Some ''#x'')],
             [Data ''X'', StartTag ''a'' [(''href'', Some ''#n'')], Data ''N''],
             [EndTag ''a'', Data '' '']),
            ([(''href'', Some ''#y'')], [Data ''Y''], [Data '' '']),
            ([(''href'', Some ''#z'')], [Data ''Z''], [EndTag ''li''])]"
  have 1: "tokenize three_anchors_line = [StartTag ''li'' []] @ concat (map segment ?segs)"
    by (rule three_anchors_events)
  have 2: "?segs \<noteq> []" by simp
  have 3: "\<not> list_ex opens_anchor [StartTag ''li'' []]" by simp
  have 4: "list_all seg_ok ?segs" by simp
  note inst = open_anchor_wins [where tok = tokenize and line = three_anchors_line
      and before = "[StartTag ''li'' []]" and segs = ?segs and u = "Some ''#z''"
      and html = three_anchors_html
      and preceding = "[''<li><a href=\"#b\">B</a><ul>'']" and following = "[''</ul></li>'']",
      OF 1 2 3 4]
  have ttl: "concat (map seg_text ?segs) = ''XNYZ''" by simp
  from inst show ?thesis
    unfolding ttl href_of_def
    by (simp add: dict_def three_anchors_split nested_outline three_anchors_ends
        three_anchors_forest del: lines_outline.simps depth_after.simps)
qed

text \<open>
  C6, as the spec has it, fails: of two anchors that follow each other on a line, the node
  has the \<^verbatim>\<open>href\<close> of the second one, and the text of both as its title.
\<close>

theorem later_anchor_counterexample:
  "TableOfContents_forest tokenize two_anchors_html
     = Some [Link ''XY'' (Some ''#y'') (Some True) []]
   \<and> TableOfContents_forest tokenize two_anchors_html
     \<noteq> Some [Link ''X'' (Some ''#x'') (Some True) []]"
  by (simp add: two_anchors_forest)

text \<open>
  C10. An anchor whose \<^verbatim>\<open>href\<close> attribute is there with the empty string as its value is
  not dropped: the line creates an object whose url is the empty string, and the object is
  a node of the tree, at the depth of the lists open at that line, after the nodes of the
  lines before and before the nodes of the lines after. A line whose anchor has a title is
  passed over exactly when its attributes have no \<^verbatim>\<open>href\<close> at all.
\<close>

theorem empty_href_kept:
  assumes "TOCParser.title (feed (tok line) TOCParser_init) \<noteq> []"
  shows "(href_of (feed (tok line) TOCParser_init) = Some (Some []) \<longrightarrow>
           (\<exists>s'. parse_line tok line s = Inr s' \<and> length (heap s') = Suc (length (heap s))
              \<and> url (heap s' ! length (heap s)) = Some []
              \<and> title (heap s' ! length (heap s)) = TOCParser.title (feed (tok line) TOCParser_init))
           \<and> (slice_2_m2 (splitlines html) = [line] \<longrightarrow>
                TableOfContents_forest tok html
                  = Some [Link (TOCParser.title (feed (tok line) TOCParser_init)) (Some [])
                            (Some True) []])
           \<and> (slice_2_m2 (splitlines html) = preceding @ line # following \<longrightarrow>
                (\<exists>toc f. TableOfContents_init tok html = Inr toc \<and> forest_of toc = Some f
                   \<and> forest_outline f
                       = lines_outline tok 0 preceding
                         @ (depth_after tok 0 preceding,
                            TOCParser.title (feed (tok line) TOCParser_init), Some [])
                         # lines_outline tok
                             (if endswith line ''<ul>'' then Suc (depth_after tok 0 preceding)
                              else depth_after tok 0 preceding) following)))
       \<and> ((parse_line tok line s = Inr s) = (href_of (feed (tok line) TOCParser_init) = None))"
proof -
  let ?p = "feed (tok line) TOCParser_init"
  from title_attrs [OF assms] obtain d where d: "attrs ?p = Some d" by blast
  have created: "\<exists>s'. parse_line tok line s0 = Inr s' \<and> length (heap s') = Suc (length (heap s0))
      \<and> url (heap s' ! length (heap s0)) = u
      \<and> title (heap s' ! length (heap s0)) = TOCParser.title ?p"
    if "href_of ?p = Some u" for u s0
  proof -
    note pl = parse_line_create [where tok = tok and line = line and s = s0, OF assms that]
    show ?thesis
      unfolding pl by (simp add: fields_children_append AnchorLink_init_def)
  qed
  have single: "TableOfContents_forest tok html = Some [Link (TOCParser.title ?p) (Some []) (Some True) []]"
    if "href_of ?p = Some (Some [])" "slice_2_m2 (splitlines html) = [line]"
  proof -
    have "parse_lines tok [line] builder_init
        = Inr \<lparr>heap = [AnchorLink_init (TOCParser.title ?p) (Some [])],
               parents = (if endswith line ''<ul>'' then [0] else []), ret = [0]\<rparr>"
      using parse_line_create [where tok = tok and line = line and s = builder_init,
          OF assms that(1)]
      by (simp add: builder_init_def)
    then show ?thesis
      by (simp add: TableOfContents_forest_def TableOfContents_init_def
          parse_html_table_of_contents_def that(2) mark_active_def forest_of_def
          AnchorLink_init_def)
  qed
  have placed: "\<exists>toc f. TableOfContents_init tok html = Inr toc \<and> forest_of toc = Some f
      \<and> forest_outline f
          = lines_outline tok 0 preceding
            @ (depth_after tok 0 preceding, TOCParser.title ?p, Some [])
            # lines_outline tok
                (if endswith line ''<ul>'' then Suc (depth_after tok 0 preceding)
                 else depth_after tok 0 preceding) following"
    if "href_of ?p = Some (Some [])" "slice_2_m2 (splitlines html) = preceding @ line # following"
    using entry_in_outline [where tok = tok and line = line and preceding = preceding
        and following = following, OF refl assms that(1)]
      construction_outline [of tok html]
    by (auto simp: that(2))
  have skipped: "(parse_line tok line s = Inr s) = (href_of ?p = None)"
  proof (cases "href_of ?p")
    case None
    then show ?thesis
      using assms by (simp add: parse_line_skip has_href_def)
  next
    case (Some u)
    from created [OF Some, of s] obtain s' where
      "parse_line tok line s = Inr s'" "length (heap s') = Suc (length (heap s))"
      by blast
    then show ?thesis using Some by auto
  qed
  show ?thesis
    using created [of "Some []" s] single placed skipped by blast
qed

theorem empty_href_kept_witness:
  "TOCParser.title (feed (tokenize empty_href_line) TOCParser_init) \<noteq> []
   \<and> href_of (feed (tokenize empty_href_line) TOCParser_init) = Some (Some [])
   \<and> (\<exists>toc f. TableOfContents_init tokenize nested_empty_href_html = Inr toc
         \<and> forest_of toc = Some f
         \<and> forest_outline f = [(0, ''B'', Some ''#b''), (1, ''T'', Some [])])
   \<and> TableOfContents_forest tokenize nested_empty_href_html
       = Some [Link ''B'' (Some ''#b'') (Some True) [Link ''T'' (Some []) None []]]
   \<and> parse_line tokenize empty_href_line builder_init \<noteq> Inr builder_init"
proof -
  have 1: "TOCParser.title (feed (tokenize empty_href_line) TOCParser_init) \<noteq> []"
    by (simp add: empty_href_line_parser)
  have 2: "endswith empty_href_line ''<ul>'' = False"
    by code_simp
  show ?thesis
    using 1 empty_href_kept [where tok = tokenize and line = empty_href_line
        and html = nested_empty_href_html and s = builder_init
        and preceding = "[''<li><a href=\"#b\">B</a><ul>'']" and following = "[''</ul></li>'']", OF 1]
    by (simp add: empty_href_line_parser nested_empty_href_split nested_outline 2
        nested_empty_href_forest del: lines_outline.simps depth_after.simps)
qed

end
